theory Spec2Isabelle
  imports Main
begin

section \<open>Strings: the functions of Go's strings package that the router calls\<close>

text \<open>
  A Go string is a byte sequence, here a \<^typ>\<open>string\<close>. The router only ever calls
  \<^verbatim>\<open>strings.HasPrefix(s, ":")\<close>, \<^verbatim>\<open>strings.TrimPrefix(s, "/")\<close>,
  \<^verbatim>\<open>strings.TrimSuffix(s, "/")\<close> and \<^verbatim>\<open>strings.Split(s, "/")\<close>.
  The first three are modelled for any argument; \<open>Split\<close> for a separator of one byte,
  the only kind the router passes.
\<close>

definition HasPrefix :: "string \<Rightarrow> string \<Rightarrow> bool" where
  "HasPrefix s p = (take (length p) s = p)"

definition HasSuffix :: "string \<Rightarrow> string \<Rightarrow> bool" where
  "HasSuffix s p = (length p \<le> length s \<and> drop (length s - length p) s = p)"

definition TrimPrefix :: "string \<Rightarrow> string \<Rightarrow> string" where
  "TrimPrefix s p = (if HasPrefix s p then drop (length p) s else s)"

definition TrimSuffix :: "string \<Rightarrow> string \<Rightarrow> string" where
  "TrimSuffix s p = (if HasSuffix s p then take (length s - length p) s else s)"

fun Split :: "string \<Rightarrow> char \<Rightarrow> string list" where
  "Split [] c = [[]]"
| "Split (x # xs) c =
     (if x = c then [] # Split xs c
      else (case Split xs c of t # ts \<Rightarrow> (x # t) # ts | [] \<Rightarrow> [[x]]))"

text \<open>
  \<^verbatim>\<open>func SplitPath(path string) []string {
    p := strings.TrimPrefix(path, "/")
    return strings.Split(strings.TrimSuffix(p, "/"), "/")
  }\<close>
\<close>

definition SplitPath :: "string \<Rightarrow> string list" where
  "SplitPath path = (let p = TrimPrefix path ''/'' in Split (TrimSuffix p ''/'') (CHR ''/''))"

text \<open>
  The tokenizer in the words of the specification: drop one leading slash when there is
  one, then one trailing slash when there is one, and cut what is left at every slash.
  \<open>join_slash\<close> puts a token sequence back together.
\<close>

definition strip_leading_slash :: "string \<Rightarrow> string" where
  "strip_leading_slash s = (case s of [] \<Rightarrow> [] | x # xs \<Rightarrow> if x = CHR ''/'' then xs else s)"

definition strip_trailing_slash :: "string \<Rightarrow> string" where
  "strip_trailing_slash s = (if s \<noteq> [] \<and> last s = CHR ''/'' then butlast s else s)"

fun join_slash :: "string list \<Rightarrow> string" where
  "join_slash [] = []"
| "join_slash [t] = t"
| "join_slash (t # u # ts) = t @ CHR ''/'' # join_slash (u # ts)"

section \<open>The routing tree\<close>

text \<open>
  \<^verbatim>\<open>type node struct {
    handler  func(context.Context, http.ResponseWriter, *http.Request)
    filters  []HttpFilter
    children map[string]*node
  }\<close>
  A nil handler is \<open>None\<close>. The children map is an association list: \<open>map_of\<close> is the
  lookup \<^verbatim>\<open>children[k]\<close>, and the order of the list stands for the order in which one
  \<^verbatim>\<open>range\<close> over the map visits its entries, which Go leaves unspecified. Registration
  only follows pointers downwards from the root and never shares a node, so the pointer
  structure is a tree and a node is identified by the key sequence that leads to it.
\<close>

datatype ('h, 'f) node =
  Node (handler: "'h option") (filters: "'f list") (children: "(string \<times> ('h, 'f) node) list")

text \<open>
  The failures of the router. \<open>UnknownPath\<close> is the error value that \<open>parseTree\<close>
  returns; all others are panics, named after their message or, for the two that the Go
  runtime raises, after the runtime error.
\<close>

datatype failure =
    HandlerCannotBeNil
  | PathCannotBeNil
  | DynamicAlreadyRegistered
  | HandlerAlreadyRegistered
  | NilPointerDereference
  | IndexOutOfRange
  | UnknownPath

text \<open>The error taxonomy of the specification, over the failures of the code.\<close>

definition InvalidRegistration :: "failure \<Rightarrow> bool" where
  "InvalidRegistration e = (e = HandlerCannotBeNil \<or> e = PathCannotBeNil)"

definition RouteConflict :: "failure \<Rightarrow> bool" where
  "RouteConflict e = (e = DynamicAlreadyRegistered \<or> e = HandlerAlreadyRegistered)"

definition NotFound :: "failure \<Rightarrow> bool" where
  "NotFound e = (e = UnknownPath)"

definition dynamic :: "string \<Rightarrow> bool" where
  "dynamic k = HasPrefix k '':''"

text \<open>
  \<^verbatim>\<open>for m := range children {
    if strings.HasPrefix(m, ":") && path != m { panic(...) }
  }\<close>
  panics exactly when some key of the map passes the test, whatever the order.
\<close>

definition dynamic_clash :: "(string \<times> ('h, 'f) node) list \<Rightarrow> string \<Rightarrow> bool" where
  "dynamic_clash cs path = list_ex (\<lambda>m. dynamic m \<and> path \<noteq> m) (map fst cs)"

text \<open>
  \<^verbatim>\<open>children[path] = n\<close>: an existing key keeps its place, a new key is a new entry.
\<close>

fun store :: "string \<Rightarrow> ('h, 'f) node \<Rightarrow> (string \<times> ('h, 'f) node) list
    \<Rightarrow> (string \<times> ('h, 'f) node) list" where
  "store k n [] = [(k, n)]"
| "store k n ((k', n') # cs) = (if k' = k then (k, n) # cs else (k', n') # store k n cs)"

text \<open>
  The loop of \<open>registerHandler\<close>, from the moment the cursor \<^verbatim>\<open>n\<close> points to a node:
  \<open>register_at n paths h fs\<close> runs the remaining tokens \<open>paths\<close> with
  \<^verbatim>\<open>children = n.children\<close>, then the two statements after the loop. It returns the
  panic, if any, and the node as the run leaves it: Go mutates in place, so what was
  written before a panic stays written.
\<close>

fun register_at :: "('h, 'f) node \<Rightarrow> string list \<Rightarrow> 'h \<Rightarrow> 'f list
    \<Rightarrow> failure option \<times> ('h, 'f) node" where
  "register_at n [] h fs =
     (if handler n \<noteq> None then (Some HandlerAlreadyRegistered, n)
      else (None, Node (Some h) fs (children n)))"
| "register_at n (path # paths) h fs =
     (if path = [] then register_at n paths h fs
      else if dynamic path \<and> dynamic_clash (children n) path
        then (Some DynamicAlreadyRegistered, n)
      else (case map_of (children n) path of
              Some c \<Rightarrow>
                (case register_at c paths h fs of
                   (e, c') \<Rightarrow> (e, Node (handler n) (filters n) (store path c' (children n))))
            | None \<Rightarrow>
                (case register_at (Node None [] []) paths h fs of
                   (e, c') \<Rightarrow> (e, Node (handler n) (filters n) (store path c' (children n))))))"

text \<open>
  The same loop while the cursor \<^verbatim>\<open>n\<close> is still nil and \<^verbatim>\<open>children\<close> is the root
  map. When the tokens run out here, \<^verbatim>\<open>n.handler\<close> dereferences the nil pointer.
\<close>

fun register_root :: "(string \<times> ('h, 'f) node) list \<Rightarrow> string list \<Rightarrow> 'h \<Rightarrow> 'f list
    \<Rightarrow> failure option \<times> (string \<times> ('h, 'f) node) list" where
  "register_root cs [] h fs = (Some NilPointerDereference, cs)"
| "register_root cs (path # paths) h fs =
     (if path = [] then register_root cs paths h fs
      else if dynamic path \<and> dynamic_clash cs path
        then (Some DynamicAlreadyRegistered, cs)
      else (case map_of cs path of
              Some c \<Rightarrow>
                (case register_at c paths h fs of (e, c') \<Rightarrow> (e, store path c' cs))
            | None \<Rightarrow>
                (case register_at (Node None [] []) paths h fs of
                   (e, c') \<Rightarrow> (e, store path c' cs))))"

text \<open>
  \<open>registerHandler\<close> on the root map; the handler argument is \<open>None\<close> for nil.
\<close>

definition registerHandler :: "(string \<times> ('h, 'f) node) list \<Rightarrow> string list \<Rightarrow> 'h option
    \<Rightarrow> 'f list \<Rightarrow> failure option \<times> (string \<times> ('h, 'f) node) list" where
  "registerHandler root paths h fs =
     (case h of
        None \<Rightarrow> (Some HandlerCannotBeNil, root)
      | Some h' \<Rightarrow>
          if length paths < 1 then (Some PathCannotBeNil, root)
          else register_root root paths h' fs)"

text \<open>
  \<^verbatim>\<open>for p, dn := range children {
    if strings.HasPrefix(p, ":") { n = dn; break }
  }\<close>
  with the entries visited in the order of the list.
\<close>

fun first_dynamic :: "(string \<times> ('h, 'f) node) list \<Rightarrow> ('h, 'f) node option" where
  "first_dynamic [] = None"
| "first_dynamic ((p, dn) # cs) = (if dynamic p then Some dn else first_dynamic cs)"

text \<open>
  \<^verbatim>\<open>func parseTree(children map[string]*node, path []string) (*node, error) {
    n, ok := children[path[0]]
    if !ok {
      (the loop above)
      if n == nil { return n, errors.New("unknown path") }
    }
    if len(path) > 1 { return parseTree(n.children, path[1:]) }
    return n, nil
  }\<close>
  The index \<^verbatim>\<open>path[0]\<close> panics on an empty path; \<open>findEndpoint\<close> never passes one.
\<close>

fun parseTree :: "(string \<times> ('h, 'f) node) list \<Rightarrow> string list \<Rightarrow> failure + ('h, 'f) node" where
  "parseTree cs [] = Inl IndexOutOfRange"
| "parseTree cs (p # ps) =
     (case (case map_of cs p of Some n \<Rightarrow> Some n | None \<Rightarrow> first_dynamic cs) of
        None \<Rightarrow> Inl UnknownPath
      | Some n \<Rightarrow> if length (p # ps) > 1 then parseTree (children n) ps else Inr n)"

text \<open>
  The lookup under every order a \<^verbatim>\<open>range\<close> may take: when the exact key is missing,
  any entry with a dynamic key can be the first one the loop meets.
\<close>

inductive parseTree_any :: "(string \<times> ('h, 'f) node) list \<Rightarrow> string list
    \<Rightarrow> failure + ('h, 'f) node \<Rightarrow> bool" where
  any_empty: "parseTree_any cs [] (Inl IndexOutOfRange)"
| any_unknown: "map_of cs p = None \<Longrightarrow> \<not> list_ex dynamic (map fst cs)
     \<Longrightarrow> parseTree_any cs (p # ps) (Inl UnknownPath)"
| any_exact_last: "map_of cs p = Some n \<Longrightarrow> parseTree_any cs [p] (Inr n)"
| any_exact_more: "map_of cs p = Some n \<Longrightarrow> ps \<noteq> [] \<Longrightarrow> parseTree_any (children n) ps r
     \<Longrightarrow> parseTree_any cs (p # ps) r"
| any_dynamic_last: "map_of cs p = None \<Longrightarrow> (k, n) \<in> set cs \<Longrightarrow> dynamic k
     \<Longrightarrow> parseTree_any cs [p] (Inr n)"
| any_dynamic_more: "map_of cs p = None \<Longrightarrow> (k, n) \<in> set cs \<Longrightarrow> dynamic k \<Longrightarrow> ps \<noteq> []
     \<Longrightarrow> parseTree_any (children n) ps r \<Longrightarrow> parseTree_any cs (p # ps) r"

code_pred parseTree_any .

text \<open>
  The node reached from a children map by following the keys \<open>ks\<close> exactly, and the
  children map reached that way (the root map for no key): the identity of a node, and
  of a level, of the tree.
\<close>

fun node_at :: "(string \<times> ('h, 'f) node) list \<Rightarrow> string list \<Rightarrow> ('h, 'f) node option" where
  "node_at cs [] = None"
| "node_at cs (k # ks) =
     (case map_of cs k of
        None \<Rightarrow> None
      | Some n \<Rightarrow> if ks = [] then Some n else node_at (children n) ks)"

fun level_at :: "(string \<times> ('h, 'f) node) list \<Rightarrow> string list
    \<Rightarrow> (string \<times> ('h, 'f) node) list option" where
  "level_at cs [] = Some cs"
| "level_at cs (k # ks) =
     (case map_of cs k of None \<Rightarrow> None | Some n \<Rightarrow> level_at (children n) ks)"

text \<open>The tokens that registration uses: it skips the empty ones.\<close>

definition elide_empty :: "string list \<Rightarrow> string list" where
  "elide_empty paths = filter (\<lambda>p. p \<noteq> []) paths"

text \<open>
  The invariants of a tree: a map has each key once, and at most one of the keys of a
  map is dynamic, on every level.
\<close>

definition one_dynamic :: "(string \<times> ('h, 'f) node) list \<Rightarrow> bool" where
  "one_dynamic cs = (length (filter dynamic (map fst cs)) \<le> 1)"

fun node_ok :: "('h, 'f) node \<Rightarrow> bool" where
  "node_ok (Node h fs cs) =
     (distinct (map fst cs) \<and> one_dynamic cs \<and> list_all (\<lambda>kc. node_ok (snd kc)) cs)"

definition trie_ok :: "(string \<times> ('h, 'f) node) list \<Rightarrow> bool" where
  "trie_ok cs = (distinct (map fst cs) \<and> one_dynamic cs \<and> list_all (\<lambda>kc. node_ok (snd kc)) cs)"

text \<open>
  What registration must leave alone: a node that carries a handler still carries that
  handler, with its filters, afterwards.
\<close>

definition kept :: "('h, 'f) node \<Rightarrow> ('h, 'f) node \<Rightarrow> bool" where
  "kept m m' = (case handler m of None \<Rightarrow> True
                | Some g \<Rightarrow> handler m' = Some g \<and> filters m' = filters m)"

section \<open>The response wrapper\<close>

text \<open>
  The response sink that the transport hands to \<open>ServeHTTP\<close> is known by the calls it
  has received, in order, and by whether it is an \<^verbatim>\<open>http.Hijacker\<close>.
\<close>

type_synonym bytes = string

datatype call = CallWriteHeader int | CallWrite bytes

record sink =
  received :: "call list"
  hijackable :: bool

definition sink_call :: "call \<Rightarrow> sink \<Rightarrow> sink" where
  "sink_call c s = s\<lparr>received := received s @ [c]\<rparr>"

text \<open>
  \<^verbatim>\<open>type responseWrapper struct {
    http.ResponseWriter
    http.Hijacker
    status int
    body   []byte
  }\<close>
  The field \<open>Hijacker\<close> is an interface value; the model keeps whether it is non-nil.
\<close>

record responseWrapper =
  ResponseWriter :: sink
  Hijacker :: bool
  status :: int
  body :: bytes

definition WriteHeader :: "int \<Rightarrow> responseWrapper \<Rightarrow> responseWrapper" where
  "WriteHeader code w = w\<lparr>status := code\<rparr>"

definition Write :: "bytes \<Rightarrow> responseWrapper \<Rightarrow> (nat \<times> failure option) \<times> responseWrapper" where
  "Write b w = ((length b, None), w\<lparr>body := b\<rparr>)"

definition flush :: "responseWrapper \<Rightarrow> responseWrapper" where
  "flush w = w\<lparr>ResponseWriter :=
     sink_call (CallWrite (body w)) (sink_call (CallWriteHeader (status w)) (ResponseWriter w))\<rparr>"

text \<open>
  The first statements of \<open>ServeHTTP\<close>:
  \<^verbatim>\<open>w := &responseWrapper{ResponseWriter: res, status: 200, body: []byte{}}
  hj, ok := res.(http.Hijacker)
  if ok { w.Hijacker = hj }\<close>
\<close>

definition wrap :: "sink \<Rightarrow> responseWrapper" where
  "wrap res = \<lparr>ResponseWriter = res, Hijacker = hijackable res, status = 200, body = []\<rparr>"

text \<open>
  Method sets. A struct with an embedded interface has the methods of that interface
  promoted into its method set, whatever value the field holds; a type assertion to an
  interface succeeds when the method set has all the methods of the interface; and a
  call of a promoted method goes to the field, which panics when the field is nil.
\<close>

definition methods_ResponseWriter :: "string list" where
  "methods_ResponseWriter = [''Header'', ''Write'', ''WriteHeader'']"

definition methods_Hijacker :: "string list" where
  "methods_Hijacker = [''Hijack'']"

definition methods_responseWrapper :: "string list" where
  "methods_responseWrapper =
     [''WriteHeader'', ''Write'', ''flush''] @ methods_ResponseWriter @ methods_Hijacker"

definition asserts_to :: "string list \<Rightarrow> string list \<Rightarrow> bool" where
  "asserts_to method_set interface = list_all (\<lambda>m. m \<in> set method_set) interface"

definition is_Hijacker :: "responseWrapper \<Rightarrow> bool" where
  "is_Hijacker w = asserts_to methods_responseWrapper methods_Hijacker"

datatype 'a ending = Returns 'a | Panics

definition Hijack :: "responseWrapper \<Rightarrow> unit ending" where
  "Hijack w = (if Hijacker w then Returns () else Panics)"

section \<open>Dispatch\<close>

text \<open>
  A filter or handler is application code. The model takes it as what it does to the
  response writer it is given: the calls it makes, in order, and whether it then returns
  or panics (a panic after some calls leaves those calls made). A handler also sees the
  context of the router. The file server of \<open>ServeStaticAt\<close> reads the file system and
  is taken the same way, as the calls it makes on the sink it is given.
\<close>

record request =
  url_path :: string

type_synonym 'c Handler = "'c \<Rightarrow> request \<Rightarrow> call list \<times> unit ending"

type_synonym HttpFilter = "request \<Rightarrow> call list \<times> bool ending"

type_synonym FileServer = "request \<Rightarrow> call list \<times> unit ending"

record 'c DynamicRouter =
  root :: "(string \<times> ('c Handler, HttpFilter) node) list"
  ctx :: 'c
  fileServer :: "FileServer option"

definition NewDynamicRouter :: "'c \<Rightarrow> 'c DynamicRouter" where
  "NewDynamicRouter background = \<lparr>root = [], ctx = background, fileServer = None\<rparr>"

definition ServeStaticAt :: "'c DynamicRouter \<Rightarrow> FileServer \<Rightarrow> 'c DynamicRouter" where
  "ServeStaticAt r fsrv = r\<lparr>fileServer := Some fsrv\<rparr>"

definition HandleFunc :: "'c DynamicRouter \<Rightarrow> string \<Rightarrow> 'c Handler option \<Rightarrow> HttpFilter list
    \<Rightarrow> failure option \<times> 'c DynamicRouter" where
  "HandleFunc r pattern h fs =
     (case registerHandler (root r) (SplitPath pattern) h fs of
        (e, root') \<Rightarrow> (e, r\<lparr>root := root'\<rparr>))"

definition findEndpoint :: "'c DynamicRouter \<Rightarrow> request
    \<Rightarrow> failure + ('c Handler, HttpFilter) node" where
  "findEndpoint r req = parseTree (root r) (SplitPath (url_path req))"

fun apply_call :: "call \<Rightarrow> responseWrapper \<Rightarrow> responseWrapper" where
  "apply_call (CallWriteHeader code) w = WriteHeader code w"
| "apply_call (CallWrite b) w = snd (Write b w)"

definition run_calls :: "call list \<Rightarrow> responseWrapper \<Rightarrow> responseWrapper" where
  "run_calls cs w = fold apply_call cs w"

text \<open>
  The state of one run of \<open>ServeHTTP\<close>: the wrapper, and a record of the application
  code that was entered, which the source does not keep and the model adds to tell
  which callbacks ran.
\<close>

datatype 'c invocation = RanFilter nat | RanHandler 'c request | RanFileServer request

record 'c exchange =
  wrapper :: responseWrapper
  ran :: "'c invocation list"

text \<open>
  \<^verbatim>\<open>for _, filter := range n.filters {
    if !filter(w, req) { w.flush(); return }
  }\<close>
  \<open>Returns False\<close> says that the loop left \<open>ServeHTTP\<close>, \<open>Returns True\<close> that it ran to
  its end.
\<close>

fun run_filters :: "HttpFilter list \<Rightarrow> nat \<Rightarrow> request \<Rightarrow> 'c exchange
    \<Rightarrow> 'c exchange \<times> bool ending" where
  "run_filters [] i req x = (x, Returns True)"
| "run_filters (f # fs) i req x =
     (case f req of
        (cs, e) \<Rightarrow>
          (let x' = x\<lparr>wrapper := run_calls cs (wrapper x), ran := ran x @ [RanFilter i]\<rparr> in
           case e of
             Panics \<Rightarrow> (x', Panics)
           | Returns ok \<Rightarrow>
               if \<not> ok then (x'\<lparr>wrapper := flush (wrapper x')\<rparr>, Returns False)
               else run_filters fs (Suc i) req x'))"

text \<open>The statements of \<open>ServeHTTP\<close> after the \<^verbatim>\<open>defer\<close>.\<close>

definition serve :: "'c DynamicRouter \<Rightarrow> request \<Rightarrow> 'c exchange \<Rightarrow> 'c exchange \<times> unit ending" where
  "serve r req x =
     (case findEndpoint r req of
        Inl err \<Rightarrow>
          if err \<noteq> UnknownPath then (x, Panics)
          else (case fileServer r of
                  None \<Rightarrow> (x\<lparr>wrapper := flush (WriteHeader 404 (wrapper x))\<rparr>, Returns ())
                | Some fsrv \<Rightarrow>
                    (case fsrv req of
                       (cs, e) \<Rightarrow>
                         (x\<lparr>wrapper := (wrapper x)\<lparr>ResponseWriter :=
                               fold sink_call cs (ResponseWriter (wrapper x))\<rparr>,
                             ran := ran x @ [RanFileServer req]\<rparr>, e)))
      | Inr n \<Rightarrow>
          (case handler n of
             None \<Rightarrow> (x, Returns ())
           | Some h \<Rightarrow>
               (case run_filters (filters n) 0 req x of
                  (x', Panics) \<Rightarrow> (x', Panics)
                | (x', Returns ok) \<Rightarrow>
                    if \<not> ok then (x', Returns ())
                    else (case h (ctx r) req of
                            (cs, e) \<Rightarrow>
                              (let x'' = x'\<lparr>wrapper := run_calls cs (wrapper x'),
                                           ran := ran x' @ [RanHandler (ctx r) req]\<rparr> in
                               case e of
                                 Panics \<Rightarrow> (x'', Panics)
                               | Returns u \<Rightarrow>
                                   (x''\<lparr>wrapper := flush (wrapper x'')\<rparr>, Returns ()))))))"

text \<open>
  \<open>ServeHTTP\<close> with its deferred function, which runs on a return and on a panic:
  \<^verbatim>\<open>defer func() {
    if r := recover(); r != nil { w.WriteHeader(http.StatusInternalServerError); w.flush() }
  }()\<close>
  After a panic \<^verbatim>\<open>recover\<close> gives the value of the panic, taken to be non-nil (since
  Go 1.21 it always is), the status is set to 500, the wrapper is flushed and \<open>ServeHTTP\<close>
  returns; after a return \<^verbatim>\<open>recover\<close> gives nil and nothing is done.
\<close>

definition ServeHTTP :: "'c DynamicRouter \<Rightarrow> sink \<Rightarrow> request \<Rightarrow> 'c exchange \<times> unit ending" where
  "ServeHTTP r res req =
     (case serve r req \<lparr>wrapper = wrap res, ran = []\<rparr> of
        (x, Panics) \<Rightarrow> (x\<lparr>wrapper := flush (WriteHeader 500 (wrapper x))\<rparr>, Returns ())
      | (x, Returns u) \<Rightarrow> (x, Returns ()))"


definition filters_calls :: "HttpFilter list \<Rightarrow> request \<Rightarrow> call list" where
  "filters_calls fs req = concat (map (\<lambda>f. fst (f req)) fs)"

definition pass :: "request \<Rightarrow> HttpFilter \<Rightarrow> bool" where
  "pass req f = (snd (f req) = Returns True)"

text \<open>What the transport sees of a run: the calls the sink has received.\<close>

definition observed :: "'c exchange \<times> unit ending \<Rightarrow> call list" where
  "observed out = received (ResponseWriter (wrapper (fst out)))"

section \<open>The application code and the sinks of the tests\<close>

text \<open>
  The handlers and the filter of \<^verbatim>\<open>route_bb_test.go\<close>: one writes 200 and a body, one
  writes 200 and a body and panics, and the filter writes 401 and returns false. A
  response recorder is not a hijacker; the response writer of the HTTP server is one.
\<close>

definition handler200 :: "'c Handler" where
  "handler200 c q = ([CallWriteHeader 200, CallWrite ''response''], Returns ())"

definition handler_panics :: "'c Handler" where
  "handler_panics c q = ([CallWriteHeader 200, CallWrite ''partial''], Panics)"

definition filter401 :: HttpFilter where
  "filter401 q = ([CallWriteHeader 401], Returns False)"

definition filter_true :: HttpFilter where
  "filter_true q = ([], Returns True)"

definition filter_panics :: HttpFilter where
  "filter_panics q = ([CallWrite ''begun''], Panics)"

definition recorder :: sink where
  "recorder = \<lparr>received = [], hijackable = False\<rparr>"

definition server_writer :: sink where
  "server_writer = \<lparr>received = [], hijackable = True\<rparr>"

definition item_router :: "unit DynamicRouter" where
  "item_router = snd (HandleFunc (NewDynamicRouter ()) ''/api/v1/item'' (Some handler200) [])"

definition item1_router :: "unit DynamicRouter" where
  "item1_router = snd (HandleFunc (NewDynamicRouter ()) ''/api/:id/item1'' (Some handler200) [])"

text \<open>
  The router of the dispatch tests, with the handler and filters as parameters, the
  request of those tests, a file server that serves a file, one that panics after a call, and
  a handler that writes twice.
\<close>

definition tests_router :: "unit Handler \<Rightarrow> HttpFilter list \<Rightarrow> unit DynamicRouter" where
  "tests_router h fs = snd (HandleFunc (NewDynamicRouter ()) ''/tests/:testId'' (Some h) fs)"

definition tests_request :: request where
  "tests_request = \<lparr>url_path = ''/tests/1''\<rparr>"

definition static_files :: FileServer where
  "static_files q = ([CallWriteHeader 200, CallWrite ''index''], Returns ())"

definition static_panics :: FileServer where
  "static_panics q = ([CallWriteHeader 200], Panics)"


section \<open>Lemmas\<close>

lemma Split_nonempty: "Split s c \<noteq> []"
  by (induction s) (auto split: list.splits)

lemma join_slash_Cons: "ts \<noteq> [] \<Longrightarrow> join_slash (t # ts) = t @ CHR ''/'' # join_slash ts"
  by (cases ts) auto

lemma join_slash_Split: "join_slash (Split s (CHR ''/'')) = s"
proof (induction s)
  case Nil
  show ?case by simp
next
  case (Cons x xs)
  show ?case
  proof (cases "x = CHR ''/''")
    case True
    with Cons show ?thesis by (simp add: join_slash_Cons Split_nonempty)
  next
    case False
    obtain t ts where sp: "Split xs (CHR ''/'') = t # ts"
      using Split_nonempty [of xs "CHR ''/''"] by (cases "Split xs (CHR ''/'')") auto
    with Cons False show ?thesis by (cases ts) auto
  qed
qed

lemma Split_no_sep: "t \<in> set (Split s c) \<Longrightarrow> c \<notin> set t"
  by (induction s arbitrary: t) (auto split: if_splits list.splits)

lemma Split_token: "c \<notin> set t \<Longrightarrow> Split t c = [t]"
  by (induction t) auto

lemma Split_append_sep: "c \<notin> set t \<Longrightarrow> Split (t @ c # s) c = t # Split s c"
  by (induction t) (auto split: list.splits)

lemma Split_join_slash:
  "ts \<noteq> [] \<Longrightarrow> \<forall>t \<in> set ts. CHR ''/'' \<notin> set t \<Longrightarrow> Split (join_slash ts) (CHR ''/'') = ts"
proof (induction ts rule: join_slash.induct)
  case 1
  then show ?case by simp
next
  case (2 t)
  then show ?case by (simp add: Split_token)
next
  case (3 t u ts)
  then show ?case by (simp add: Split_append_sep)
qed

lemma TrimPrefix_slash: "TrimPrefix s ''/'' = strip_leading_slash s"
  by (cases s) (auto simp: TrimPrefix_def HasPrefix_def strip_leading_slash_def)

lemma TrimSuffix_slash: "TrimSuffix s ''/'' = strip_trailing_slash s"
proof (cases s rule: rev_cases)
  case Nil
  then show ?thesis by (simp add: TrimSuffix_def HasSuffix_def strip_trailing_slash_def)
next
  case (snoc ys y)
  then show ?thesis by (auto simp: TrimSuffix_def HasSuffix_def strip_trailing_slash_def)
qed

lemma SplitPath_strip:
  "SplitPath s = Split (strip_trailing_slash (strip_leading_slash s)) (CHR ''/'')"
  by (simp add: SplitPath_def TrimPrefix_slash TrimSuffix_slash)

lemma strip_append_slash:
  "\<not> HasSuffix p ''/'' \<Longrightarrow>
   strip_trailing_slash (strip_leading_slash (p @ ''/'')) = strip_trailing_slash (strip_leading_slash p)"
proof (cases p rule: rev_cases)
  case Nil
  then show ?thesis by (simp add: strip_leading_slash_def strip_trailing_slash_def)
next
  case (snoc ys y)
  assume "\<not> HasSuffix p ''/''"
  with snoc have y: "y \<noteq> CHR ''/''" by (auto simp: HasSuffix_def)
  with snoc show ?thesis
    by (cases ys) (auto simp: strip_leading_slash_def strip_trailing_slash_def butlast_append)
qed

lemma SplitPath_trailing: "\<not> HasSuffix p ''/'' \<Longrightarrow> SplitPath (p @ ''/'') = SplitPath p"
  by (simp add: SplitPath_strip strip_append_slash)

lemma map_of_store: "map_of (store k n cs) k' = (if k' = k then Some n else map_of cs k')"
  by (induction cs) auto

lemma keys_store:
  "map fst (store k n cs) = (if map_of cs k = None then map fst cs @ [k] else map fst cs)"
  by (induction cs) auto

lemma store_same: "map_of cs k = Some n \<Longrightarrow> store k n cs = cs"
  by (induction cs) (auto split: if_splits)

lemma set_store: "(k', m) \<in> set (store k n cs) \<Longrightarrow> (k' = k \<and> m = n) \<or> (k', m) \<in> set cs"
  by (induction cs) (auto split: if_splits)

lemma node_collapse: "Node (handler n) (filters n) (children n) = n"
  by (cases n) simp

lemma register_at_elide: "register_at n paths h fs = register_at n (elide_empty paths) h fs"
  by (induction paths arbitrary: n) (auto simp: elide_empty_def cong: option.case_cong)

lemma register_root_elide: "register_root cs paths h fs = register_root cs (elide_empty paths) h fs"
  by (induction paths)
    (auto simp: elide_empty_def register_at_elide [unfolded elide_empty_def, symmetric]
       cong: option.case_cong)

lemma register_root_as_node:
  "register_root cs paths h fs =
     (if elide_empty paths = [] then (Some NilPointerDereference, cs)
      else (case register_at (Node None [] cs) paths h fs of (e, n') \<Rightarrow> (e, children n')))"
  by (induction paths) (auto simp: elide_empty_def split: option.splits prod.splits)

lemma register_fresh:
  "handler n = None \<Longrightarrow> children n = [] \<Longrightarrow> fst (register_at n paths h fs) = None"
proof (induction paths arbitrary: n)
  case Nil
  then show ?case by simp
next
  case (Cons p ps)
  have "fst (register_at (Node None [] []) ps h fs) = None"
    by (rule Cons.IH) simp_all
  with Cons show ?case
    by (cases "register_at (Node None [] []) ps h fs") (auto simp: dynamic_clash_def)
qed

lemma register_at_failure_unchanged:
  "register_at n paths h fs = (Some e, n') \<Longrightarrow> n' = n"
proof (induction paths arbitrary: n n')
  case Nil
  then show ?case by (auto split: if_splits)
next
  case (Cons p ps)
  show ?case
  proof (cases "p = []")
    case True
    with Cons show ?thesis by simp
  next
    case False
    note p = this
    show ?thesis
    proof (cases "dynamic p \<and> dynamic_clash (children n) p")
      case True
      with Cons.prems p show ?thesis by simp
    next
      case False
      note nc = this
      show ?thesis
      proof (cases "map_of (children n) p")
        case None
        have "fst (register_at (Node None [] []) ps h fs) = None"
          by (rule register_fresh) simp_all
        with Cons.prems p nc None show ?thesis
          by (auto split: prod.splits)
      next
        case (Some c)
        obtain e' c' where r: "register_at c ps h fs = (e', c')"
          by (cases "register_at c ps h fs")
        with Cons.prems p nc Some have e': "e' = Some e"
          and n': "n' = Node (handler n) (filters n) (store p c' (children n))"
          by auto
        from r e' Cons.IH have "c' = c" by blast
        with n' Some show ?thesis by (simp add: store_same node_collapse)
      qed
    qed
  qed
qed

lemma node_at_parseTree: "node_at cs ks = Some m \<Longrightarrow> parseTree cs ks = Inr m"
  by (induction cs ks rule: node_at.induct) (auto split: option.splits if_splits)

lemma node_at_parseTree_any: "parseTree_any cs ks r \<Longrightarrow> node_at cs ks = Some m \<Longrightarrow> r = Inr m"
  by (induction rule: parseTree_any.induct) (auto split: option.splits if_splits)

lemma register_at_installs:
  "register_at n paths h fs = (None, n') \<Longrightarrow>
     (if elide_empty paths = [] then handler n' = Some h \<and> filters n' = fs
      else (\<exists>m. node_at (children n') (elide_empty paths) = Some m
                \<and> handler m = Some h \<and> filters m = fs))"
proof (induction paths arbitrary: n n')
  case Nil
  then show ?case by (auto simp: elide_empty_def split: if_splits)
next
  case (Cons p ps)
  show ?case
  proof (cases "p = []")
    case True
    then have "elide_empty (p # ps) = elide_empty ps" by (simp add: elide_empty_def)
    with Cons True show ?thesis by simp
  next
    case False
    define c where "c = (case map_of (children n) p of Some c \<Rightarrow> c | None \<Rightarrow> Node None [] [])"
    obtain e' c' where r: "register_at c ps h fs = (e', c')"
      by (cases "register_at c ps h fs")
    from Cons.prems False r have e': "e' = None"
      and n': "children n' = store p c' (children n)"
      by (auto simp: c_def split: if_splits option.splits)
    from Cons.IH [of c c'] r e'
    have ih: "if elide_empty ps = [] then handler c' = Some h \<and> filters c' = fs
      else (\<exists>m. node_at (children c') (elide_empty ps) = Some m
                \<and> handler m = Some h \<and> filters m = fs)"
      by simp
    have el: "elide_empty (p # ps) = p # elide_empty ps"
      using False by (simp add: elide_empty_def)
    show ?thesis
      using ih by (auto simp: el n' map_of_store split: if_splits)
  qed
qed

lemma kept_refl: "kept m m"
  by (simp add: kept_def split: option.splits)

lemma register_at_keeps:
  "register_at n paths h fs = (e, n') \<Longrightarrow>
     kept n n' \<and> (\<forall>ks m. node_at (children n) ks = Some m
                     \<longrightarrow> (\<exists>m'. node_at (children n') ks = Some m' \<and> kept m m'))"
proof (induction paths arbitrary: n n' e)
  case Nil
  then show ?case by (auto simp: kept_def split: if_splits option.splits)
next
  case (Cons p ps)
  show ?case
  proof (cases "p = []")
    case True
    with Cons show ?thesis by simp
  next
    case False
    note p = this
    show ?thesis
    proof (cases "dynamic p \<and> dynamic_clash (children n) p")
      case True
      with Cons.prems p show ?thesis by (auto simp: kept_refl)
    next
      case False
      define c where "c = (case map_of (children n) p of Some c \<Rightarrow> c | None \<Rightarrow> Node None [] [])"
      obtain e' c' where r: "register_at c ps h fs = (e', c')"
        by (cases "register_at c ps h fs")
      from Cons.prems p False r
      have n': "n' = Node (handler n) (filters n) (store p c' (children n))"
        by (auto simp: c_def split: option.splits)
      from Cons.IH [OF r] have kc: "kept c c'"
        and sub: "\<And>ks m. node_at (children c) ks = Some m
                    \<Longrightarrow> \<exists>m'. node_at (children c') ks = Some m' \<and> kept m m'"
        by blast+
      have k0: "kept n n'" by (simp add: n' kept_def split: option.splits)
      have "\<exists>m'. node_at (children n') ks = Some m' \<and> kept m m'"
        if a: "node_at (children n) ks = Some m" for ks m
      proof (cases ks)
        case Nil
        with a show ?thesis by simp
      next
        case (Cons k ks')
        show ?thesis
        proof (cases "k = p")
          case False
          with a Cons show ?thesis
            by (auto simp: n' map_of_store kept_refl split: option.splits if_splits)
        next
          case True
          with a Cons obtain c0 where c0: "map_of (children n) p = Some c0"
            by (auto split: option.splits)
          then have cc: "c = c0" by (simp add: c_def)
          show ?thesis
          proof (cases "ks' = []")
            case True
            with a Cons \<open>k = p\<close> c0 cc kc show ?thesis
              by (auto simp: n' map_of_store)
          next
            case False
            with a Cons \<open>k = p\<close> c0 cc have "node_at (children c) ks' = Some m"
              by auto
            from sub [OF this] False Cons \<open>k = p\<close> show ?thesis
              by (auto simp: n' map_of_store)
          qed
        qed
      qed
      with k0 show ?thesis by blast
    qed
  qed
qed

lemma dynamic_nonempty: "dynamic k \<Longrightarrow> k \<noteq> []"
  by (auto simp: dynamic_def HasPrefix_def)

lemma set_keys_store: "set (map fst (store k n cs)) = insert k (set (map fst cs))"
  by (induction cs) (auto split: if_splits simp: rev_image_eqI)

lemma distinct_store: "distinct (map fst cs) \<Longrightarrow> distinct (map fst (store k n cs))"
proof (induction cs)
  case Nil
  show ?case by simp
next
  case (Cons a cs)
  obtain k' n' where a: "a = (k', n')" by (cases a)
  from Cons have "distinct (map fst (store k n cs))" by simp
  with Cons.prems a show ?case
    using set_keys_store [of k n cs] by (cases "k' = k") auto
qed

lemma one_dynamic_store:
  "one_dynamic cs \<Longrightarrow> \<not> (dynamic k \<and> dynamic_clash cs k) \<Longrightarrow> one_dynamic (store k n cs)"
proof (cases "map_of cs k")
  case (Some a)
  assume "one_dynamic cs"
  with Some show ?thesis by (simp add: one_dynamic_def keys_store)
next
  case None
  assume od: "one_dynamic cs" and nc: "\<not> (dynamic k \<and> dynamic_clash cs k)"
  show ?thesis
  proof (cases "dynamic k")
    case False
    with od None show ?thesis by (simp add: one_dynamic_def keys_store)
  next
    case True
    with nc have "\<forall>m \<in> set (map fst cs). dynamic m \<longrightarrow> m = k"
      by (auto simp: dynamic_clash_def list_ex_iff)
    moreover from None have "k \<notin> set (map fst cs)"
      by (simp add: map_of_eq_None_iff)
    ultimately have "filter dynamic (map fst cs) = []"
      by (auto simp: filter_empty_conv)
    with None True show ?thesis by (simp add: one_dynamic_def keys_store)
  qed
qed

lemma list_all_store: "list_all P cs \<Longrightarrow> P (k, n) \<Longrightarrow> list_all P (store k n cs)"
  by (induction cs) auto

lemma node_ok_children: "node_ok n = trie_ok (children n)"
  by (cases n) (simp add: trie_ok_def)

lemma trie_ok_child:
  assumes "trie_ok cs" and "(k, n) \<in> set cs"
  shows "trie_ok (children n)"
proof -
  from assms(1) have "list_all (\<lambda>kc. node_ok (snd kc)) cs"
    unfolding trie_ok_def by blast
  with assms(2) have "node_ok n" by (auto simp: list_all_iff)
  then show ?thesis by (simp only: node_ok_children)
qed

lemma trie_ok_store:
  "trie_ok cs \<Longrightarrow> \<not> (dynamic k \<and> dynamic_clash cs k) \<Longrightarrow> node_ok n \<Longrightarrow> trie_ok (store k n cs)"
  unfolding trie_ok_def by (simp add: distinct_store one_dynamic_store list_all_store)

lemma register_at_ok: "node_ok n \<Longrightarrow> register_at n paths h fs = (e, n') \<Longrightarrow> node_ok n'"
proof (induction paths arbitrary: n n' e)
  case Nil
  then show ?case by (cases n) (auto split: if_splits)
next
  case (Cons p ps)
  show ?case
  proof (cases "p = [] \<or> (dynamic p \<and> dynamic_clash (children n) p)")
    case True
    with Cons show ?thesis by (auto split: if_splits)
  next
    case False
    define c where "c = (case map_of (children n) p of Some c \<Rightarrow> c | None \<Rightarrow> Node None [] [])"
    obtain e' c' where r: "register_at c ps h fs = (e', c')"
      by (cases "register_at c ps h fs")
    from Cons.prems False r
    have n': "n' = Node (handler n) (filters n) (store p c' (children n))"
      by (auto simp: c_def split: option.splits)
    have "node_ok c"
    proof (cases "map_of (children n) p")
      case None
      then show ?thesis by (simp add: c_def one_dynamic_def)
    next
      case (Some a)
      then have "(p, a) \<in> set (children n)" by (rule map_of_SomeD)
      with Cons.prems(1) Some show ?thesis
        by (auto simp: c_def node_ok_children dest: trie_ok_child)
    qed
    then have "node_ok c'" using r by (rule Cons.IH)
    with Cons.prems(1) False show ?thesis
      by (simp add: n' node_ok_children trie_ok_store)
  qed
qed

lemma register_at_own:
  "elide_empty paths \<noteq> [] \<Longrightarrow> register_at n paths h fs = (e, n')
     \<Longrightarrow> handler n' = handler n \<and> filters n' = filters n"
proof (induction paths)
  case Nil
  then show ?case by (simp add: elide_empty_def)
next
  case (Cons p ps)
  then show ?case
    by (cases "p = []") (auto simp: elide_empty_def split: if_splits option.splits prod.splits)
qed


lemma first_dynamic_unique:
  "one_dynamic cs \<Longrightarrow> (k, n) \<in> set cs \<Longrightarrow> dynamic k \<Longrightarrow> first_dynamic cs = Some n"
proof (induction cs)
  case Nil
  then show ?case by simp
next
  case (Cons a cs)
  obtain k' n' where a: "a = (k', n')" by (cases a)
  show ?case
  proof (cases "dynamic k'")
    case True
    with Cons.prems(1) a have "length (filter dynamic (map fst cs)) = 0"
      unfolding one_dynamic_def by simp
    then have "\<forall>x \<in> set cs. \<not> dynamic (fst x)"
      by (auto simp: filter_empty_conv)
    with Cons.prems a True show ?thesis by auto
  next
    case False
    with Cons a show ?thesis by (auto simp: one_dynamic_def)
  qed
qed

lemma first_dynamic_None: "first_dynamic cs = None \<longleftrightarrow> \<not> list_ex dynamic (map fst cs)"
  by (induction cs rule: first_dynamic.induct) auto

lemma first_dynamic_Some: "first_dynamic cs = Some n \<Longrightarrow> \<exists>k. (k, n) \<in> set cs \<and> dynamic k"
  by (induction cs rule: first_dynamic.induct) (auto split: if_splits)

lemma parseTree_any_parseTree: "parseTree_any cs ps (parseTree cs ps)"
proof (induction ps arbitrary: cs)
  case Nil
  show ?case by (simp add: any_empty)
next
  case (Cons p ps)
  show ?case
  proof (cases "map_of cs p")
    case (Some n)
    with Cons [of "children n"] show ?thesis
      by (cases "ps = []") (auto intro: any_exact_last any_exact_more)
  next
    case None
    show ?thesis
    proof (cases "first_dynamic cs")
      case None
      then have "\<not> list_ex dynamic (map fst cs)" by (simp add: first_dynamic_None)
      with \<open>map_of cs p = None\<close> have "parseTree_any cs (p # ps) (Inl UnknownPath)"
        by (rule any_unknown)
      with None \<open>map_of cs p = None\<close> show ?thesis by simp
    next
      case (Some n)
      then obtain k where "(k, n) \<in> set cs" "dynamic k"
        by (auto dest: first_dynamic_Some)
      with None Some Cons [of "children n"] show ?thesis
        by (cases "ps = []") (auto intro: any_dynamic_last any_dynamic_more)
    qed
  qed
qed

lemma parseTree_any_unique: "parseTree_any cs ps r \<Longrightarrow> trie_ok cs \<Longrightarrow> r = parseTree cs ps"
proof (induction rule: parseTree_any.induct)
  case (any_empty cs)
  show ?case by simp
next
  case (any_unknown cs p ps)
  then show ?case by (simp add: first_dynamic_None [symmetric])
next
  case (any_exact_last cs p n)
  then show ?case by simp
next
  case (any_exact_more cs p n ps r)
  from any_exact_more.hyps(1) have "(p, n) \<in> set cs" by (rule map_of_SomeD)
  with any_exact_more show ?case by (auto dest: trie_ok_child)
next
  case (any_dynamic_last cs p k n)
  then have "first_dynamic cs = Some n"
    by (auto simp: trie_ok_def intro: first_dynamic_unique)
  with any_dynamic_last show ?case by simp
next
  case (any_dynamic_more cs p k n ps r)
  then have "first_dynamic cs = Some n"
    by (auto simp: trie_ok_def intro: first_dynamic_unique)
  with any_dynamic_more show ?case by (auto dest: trie_ok_child)
qed

lemma clash_store:
  "dynamic_clash (store p c cs) p \<Longrightarrow> dynamic_clash cs p"
proof -
  assume "dynamic_clash (store p c cs) p"
  then obtain m where m: "m \<in> set (map fst (store p c cs))" "dynamic m" "p \<noteq> m"
    unfolding dynamic_clash_def list_ex_iff by blast
  from m(1,3) have "m \<in> set (map fst cs)" by (simp only: set_keys_store) simp
  with m(2,3) show ?thesis unfolding dynamic_clash_def list_ex_iff by blast
qed

lemma register_at_twice:
  "register_at n paths h fs = (None, n')
     \<Longrightarrow> register_at n' paths h2 fs2 = (Some HandlerAlreadyRegistered, n')"
proof (induction paths arbitrary: n n')
  case Nil
  then show ?case by (auto split: if_splits)
next
  case (Cons p ps)
  show ?case
  proof (cases "p = []")
    case True
    with Cons show ?thesis by simp
  next
    case False
    define c where "c = (case map_of (children n) p of Some c \<Rightarrow> c | None \<Rightarrow> Node None [] [])"
    obtain e' c' where r: "register_at c ps h fs = (e', c')"
      by (cases "register_at c ps h fs")
    from Cons.prems False r have nc: "\<not> (dynamic p \<and> dynamic_clash (children n) p)"
      and e': "e' = None"
      and n': "n' = Node (handler n) (filters n) (store p c' (children n))"
      by (auto simp: c_def split: if_splits option.splits)
    from r e' have again: "register_at c' ps h2 fs2 = (Some HandlerAlreadyRegistered, c')"
      by (simp add: Cons.IH)
    from nc have nc': "\<not> (dynamic p \<and> dynamic_clash (children n') p)"
      by (auto simp: n' dest: clash_store)
    have m: "map_of (children n') p = Some c'"
      by (simp add: n' map_of_store)
    have "store p c' (children n') = children n'"
      using m by (rule store_same)
    with False nc' m again show ?thesis
      by (simp add: node_collapse)
  qed
qed

lemma register_at_clash:
  "level_at (children n) pre = Some l \<Longrightarrow> list_all (\<lambda>k. k \<noteq> []) pre \<Longrightarrow> dynamic tok
     \<Longrightarrow> dynamic_clash l tok
     \<Longrightarrow> register_at n (pre @ tok # rest) h fs = (Some DynamicAlreadyRegistered, n)"
proof (induction pre arbitrary: n)
  case Nil
  then show ?case by (simp add: dynamic_nonempty)
next
  case (Cons k ks)
  from Cons.prems(1) obtain c where c: "map_of (children n) k = Some c"
    and l: "level_at (children c) ks = Some l"
    by (auto split: option.splits)
  from Cons.prems have "list_all (\<lambda>k. k \<noteq> []) ks" and k: "k \<noteq> []" by simp_all
  with l Cons.prems
  have "register_at c (ks @ tok # rest) h fs = (Some DynamicAlreadyRegistered, c)"
    by (simp add: Cons.IH)
  with c k show ?case
    by (simp add: store_same node_collapse)
qed

lemma no_clash_same:
  "one_dynamic cs \<Longrightarrow> map_of cs tok = Some c \<Longrightarrow> dynamic tok \<Longrightarrow> \<not> dynamic_clash cs tok"
proof
  assume od: "one_dynamic cs" and m: "map_of cs tok = Some c" and d: "dynamic tok"
    and cl: "dynamic_clash cs tok"
  from cl obtain k where k: "k \<in> set (map fst cs)" "dynamic k" "tok \<noteq> k"
    by (auto simp: dynamic_clash_def list_ex_iff)
  from m have "(tok, c) \<in> set cs" by (rule map_of_SomeD)
  then have t: "tok \<in> set (map fst cs)" by force
  from k d t have "{tok, k} \<subseteq> set (filter dynamic (map fst cs))" by simp
  then have "card {tok, k} \<le> card (set (filter dynamic (map fst cs)))"
    by (intro card_mono) simp_all
  also have "\<dots> \<le> length (filter dynamic (map fst cs))" by (rule card_length)
  finally show False using od k(3) by (simp add: one_dynamic_def)
qed

lemmas string_defs = SplitPath_def TrimPrefix_def TrimSuffix_def HasPrefix_def HasSuffix_def
lemmas trie_defs = registerHandler_def dynamic_def dynamic_clash_def

lemma join_slash_nonempty: "ts \<noteq> [] \<Longrightarrow> hd ts \<noteq> [] \<Longrightarrow> join_slash ts \<noteq> []"
  by (induction ts rule: join_slash.induct) auto

lemma hd_join_slash: "ts \<noteq> [] \<Longrightarrow> hd ts \<noteq> [] \<Longrightarrow> hd (join_slash ts) = hd (hd ts)"
  by (induction ts rule: join_slash.induct) auto

lemma join_slash_nonempty_last: "ts \<noteq> [] \<Longrightarrow> last ts \<noteq> [] \<Longrightarrow> join_slash ts \<noteq> []"
  by (induction ts rule: join_slash.induct) auto

lemma last_join_slash:
  "ts \<noteq> [] \<Longrightarrow> last ts \<noteq> [] \<Longrightarrow> last (join_slash ts) = last (last ts)"
proof (induction ts rule: join_slash.induct)
  case 1
  then show ?case by simp
next
  case (2 t)
  then show ?case by simp
next
  case (3 t u ts)
  then have "join_slash (u # ts) \<noteq> []"
    using join_slash_nonempty_last [of "u # ts"] by simp
  with 3 show ?case by simp
qed

lemma SplitPath_join_slash:
  assumes ne: "ts \<noteq> []" and ok: "\<forall>t \<in> set ts. t \<noteq> [] \<and> CHR ''/'' \<notin> set t"
  shows "SplitPath (join_slash ts) = ts"
proof -
  from ne ok have h: "hd ts \<noteq> []" "CHR ''/'' \<notin> set (hd ts)"
    and l: "last ts \<noteq> []" "CHR ''/'' \<notin> set (last ts)"
    by simp_all
  from h have "hd (hd ts) \<noteq> CHR ''/''" by (cases "hd ts") auto
  with ne h have a: "strip_leading_slash (join_slash ts) = join_slash ts"
    using hd_join_slash [of ts] join_slash_nonempty [of ts]
    by (cases "join_slash ts") (auto simp: strip_leading_slash_def)
  from l have "last (last ts) \<noteq> CHR ''/''"
    by (cases "last ts" rule: rev_cases) auto
  with ne l have b: "strip_trailing_slash (join_slash ts) = join_slash ts"
    using last_join_slash [of ts] by (simp add: strip_trailing_slash_def)
  from ne ok show ?thesis
    by (simp add: SplitPath_strip a b Split_join_slash)
qed

lemma SplitPath_nonempty: "SplitPath s \<noteq> []"
  by (simp add: SplitPath_def Split_nonempty)

lemma elide_tokens_ok:
  "\<forall>t \<in> set (elide_empty (SplitPath s)). t \<noteq> [] \<and> CHR ''/'' \<notin> set t"
  by (auto simp: elide_empty_def SplitPath_def dest: Split_no_sep)

lemma run_calls_Nil: "run_calls [] w = w"
  by (simp add: run_calls_def)

lemma run_calls_Cons: "run_calls (c # cs) w = run_calls cs (apply_call c w)"
  by (simp add: run_calls_def)

lemma run_calls_append: "run_calls (a @ b) w = run_calls b (run_calls a w)"
  by (simp add: run_calls_def)

lemma apply_call_sink:
  "ResponseWriter (apply_call c w) = ResponseWriter w" "Hijacker (apply_call c w) = Hijacker w"
  by (cases c; simp add: WriteHeader_def Write_def)+

lemma run_calls_sink:
  "ResponseWriter (run_calls cs w) = ResponseWriter w" "Hijacker (run_calls cs w) = Hijacker w"
  by (induction cs arbitrary: w; simp add: run_calls_Nil run_calls_Cons apply_call_sink)+


lemma received_flush:
  "received (ResponseWriter (flush w))
     = received (ResponseWriter w) @ [CallWriteHeader (status w), CallWrite (body w)]"
  by (simp add: flush_def sink_call_def)

lemma received_fold_sink_call: "received (fold sink_call cs s) = received s @ cs"
  by (induction cs arbitrary: s) (simp_all add: sink_call_def)

lemma wrap_sel:
  "ResponseWriter (wrap res) = res" "status (wrap res) = 200" "body (wrap res) = []"
  "Hijacker (wrap res) = hijackable res"
  by (simp_all add: wrap_def)

lemma filters_calls_simps:
  "filters_calls [] req = []"
  "filters_calls (f # fs) req = fst (f req) @ filters_calls fs req"
  "filters_calls (fs @ gs) req = filters_calls fs req @ filters_calls gs req"
  by (simp_all add: filters_calls_def)

lemma run_filters_append:
  "list_all (pass req) pre \<Longrightarrow>
   run_filters (pre @ post) i req x =
     run_filters post (i + length pre) req
       (x\<lparr>wrapper := run_calls (filters_calls pre req) (wrapper x),
          ran := ran x @ map RanFilter [i..<i + length pre]\<rparr>)"
proof (induction pre arbitrary: i x)
  case Nil
  show ?case by (simp add: filters_calls_simps run_calls_Nil)
next
  case (Cons f fs)
  obtain cs where f: "f req = (cs, Returns True)"
    using Cons.prems by (cases "f req") (auto simp: pass_def)
  from Cons.prems have "list_all (pass req) fs" by simp
  note ih = Cons.IH [OF this]
  have u: "[i..<Suc (i + length fs)] = i # [Suc i..<Suc (i + length fs)]"
    by (simp add: upt_conv_Cons del: upt_Suc)
  show ?case
    by (simp add: f ih filters_calls_simps run_calls_append u del: upt_Suc)
qed

lemma run_filters_pass:
  "list_all (pass req) fs \<Longrightarrow>
   run_filters fs i req x =
     (x\<lparr>wrapper := run_calls (filters_calls fs req) (wrapper x),
        ran := ran x @ map RanFilter [i..<i + length fs]\<rparr>, Returns True)"
  using run_filters_append [of req fs "[]" i x] by simp

lemma parseTree_failure: "parseTree cs ps = Inl err \<Longrightarrow> ps \<noteq> [] \<Longrightarrow> err = UnknownPath"
  by (induction cs ps rule: parseTree.induct) (auto split: option.splits if_splits)

lemma findEndpoint_failure: "findEndpoint r req = Inl err \<Longrightarrow> err = UnknownPath"
  unfolding findEndpoint_def by (erule parseTree_failure) (rule SplitPath_nonempty)

lemma ServeHTTP_filter_stops:
  assumes "findEndpoint r req = Inr n" and "handler n = Some h"
    and "filters n = pre @ f # post" and "list_all (pass req) pre"
    and "f req = (cs, Returns False)"
  shows "ServeHTTP r res req =
    (\<lparr>wrapper = flush (run_calls (filters_calls pre req @ cs) (wrap res)),
      ran = map RanFilter [0..<Suc (length pre)]\<rparr>, Returns ())"
  using assms
  by (simp add: ServeHTTP_def serve_def run_filters_append run_calls_append)


lemma ServeHTTP_handler_returns:
  assumes "findEndpoint r req = Inr n" and "handler n = Some h"
    and "list_all (pass req) (filters n)" and "h (ctx r) req = (cs, Returns ())"
  shows "ServeHTTP r res req =
    (\<lparr>wrapper = flush (run_calls (filters_calls (filters n) req @ cs) (wrap res)),
      ran = map RanFilter [0..<length (filters n)] @ [RanHandler (ctx r) req]\<rparr>, Returns ())"
  using assms
  by (simp add: ServeHTTP_def serve_def run_filters_pass run_calls_append)


lemma observed_flush:
  "observed (\<lparr>wrapper = flush (run_calls cs (wrap res)), ran = rs\<rparr>, e)
     = received res @ [CallWriteHeader (status (run_calls cs (wrap res))),
                       CallWrite (body (run_calls cs (wrap res)))]"
  by (simp add: observed_def received_flush run_calls_sink wrap_sel)


lemma tests_router_eq:
  "tests_router h fs = \<lparr>root = [(''tests'', Node None [] [('':testId'', Node (Some h) fs [])])],
      ctx = (), fileServer = None\<rparr>"
  by (simp add: tests_router_def HandleFunc_def NewDynamicRouter_def string_defs trie_defs)

lemma tests_router_find:
  "findEndpoint (tests_router h fs) tests_request = Inr (Node (Some h) fs [])"
  by (simp add: tests_router_eq tests_request_def findEndpoint_def string_defs dynamic_def)

lemma tests_router_miss:
  "findEndpoint (tests_router h fs) \<lparr>url_path = ''/other''\<rparr> = Inl UnknownPath"
  "findEndpoint (ServeStaticAt (tests_router h fs) fsrv) \<lparr>url_path = ''/other''\<rparr> = Inl UnknownPath"
  by (simp_all add: tests_router_eq ServeStaticAt_def findEndpoint_def string_defs dynamic_def)

lemmas wrapper_defs = wrap_def flush_def sink_call_def WriteHeader_def Write_def run_calls_def
  filters_calls_def recorder_def server_writer_def

lemma ServeHTTP_not_found:
  assumes "findEndpoint r req = Inl err" and "fileServer r = None"
  shows "ServeHTTP r res req =
    (\<lparr>wrapper = flush (WriteHeader 404 (wrap res)), ran = []\<rparr>, Returns ())"
  using assms findEndpoint_failure [OF assms(1)]
  by (simp add: ServeHTTP_def serve_def)

lemma ServeHTTP_fallback_returns:
  assumes "findEndpoint r req = Inl err" and "fileServer r = Some fsrv"
    and "fsrv req = (cs, Returns ())"
  shows "ServeHTTP r res req =
    (\<lparr>wrapper = (wrap res)\<lparr>ResponseWriter := fold sink_call cs res\<rparr>,
      ran = [RanFileServer req]\<rparr>, Returns ())"
  using assms findEndpoint_failure [OF assms(1)]
  by (simp add: ServeHTTP_def serve_def wrap_sel)

lemma ServeHTTP_fallback_panics:
  assumes "findEndpoint r req = Inl err" and "fileServer r = Some fsrv"
    and "fsrv req = (cs, Panics)"
  shows "ServeHTTP r res req =
    (\<lparr>wrapper = flush (WriteHeader 500 ((wrap res)\<lparr>ResponseWriter := fold sink_call cs res\<rparr>)),
      ran = [RanFileServer req]\<rparr>, Returns ())"
  using assms findEndpoint_failure [OF assms(1)]
  by (simp add: ServeHTTP_def serve_def wrap_sel)

section \<open>C8: the path tokenizer\<close>

lemma item_router_root:
  "root item_router = [(''api'', Node None [] [(''v1'', Node None [] [(''item'', Node (Some handler200) [] [])])])]"
  by (simp add: item_router_def HandleFunc_def NewDynamicRouter_def string_defs trie_defs)

text \<open>
  C8, as amended. \<open>SplitPath\<close> of the empty string is the single empty token. For every
  string, \<open>SplitPath\<close> removes one leading slash if there is one, then one trailing slash
  if there is one, and cuts the rest at every slash: the tokens hold no slash, and joined
  by slashes they give the stripped string back. A path \<open>p\<close> that does not end in a slash
  and \<open>p\<close> followed by one slash have the same tokens, so \<open>findEndpoint\<close> gives the same
  answer for both in every router.
\<close>

theorem SplitPath_tokenizer:
  "SplitPath [] = [[]]
   \<and> SplitPath s = Split (strip_trailing_slash (strip_leading_slash s)) (CHR ''/'')
   \<and> join_slash (SplitPath s) = strip_trailing_slash (strip_leading_slash s)
   \<and> list_all (\<lambda>t. CHR ''/'' \<notin> set t) (SplitPath s)
   \<and> (\<not> HasSuffix p ''/'' \<longrightarrow>
        SplitPath (p @ ''/'') = SplitPath p
        \<and> findEndpoint r \<lparr>url_path = p @ ''/''\<rparr> = findEndpoint r \<lparr>url_path = p\<rparr>)"
proof -
  have 1: "SplitPath [] = [[]]" by (simp add: string_defs)
  have 2: "SplitPath s = Split (strip_trailing_slash (strip_leading_slash s)) (CHR ''/'')"
    by (rule SplitPath_strip)
  have 3: "join_slash (SplitPath s) = strip_trailing_slash (strip_leading_slash s)"
    by (simp only: 2 join_slash_Split)
  have 4: "list_all (\<lambda>t. CHR ''/'' \<notin> set t) (SplitPath s)"
    unfolding list_all_iff SplitPath_def by (auto dest: Split_no_sep)
  have 5: "SplitPath (p @ ''/'') = SplitPath p
        \<and> findEndpoint r \<lparr>url_path = p @ ''/''\<rparr> = findEndpoint r \<lparr>url_path = p\<rparr>"
    if "\<not> HasSuffix p ''/''"
    using that by (simp add: findEndpoint_def SplitPath_trailing)
  from 1 2 3 4 5 show ?thesis by blast
qed

theorem SplitPath_tokenizer_witness:
  "\<not> HasSuffix ''/api/v1/item'' ''/''
   \<and> SplitPath ''/api/v1/item/'' = [''api'', ''v1'', ''item'']
   \<and> join_slash (SplitPath ''//a//'') = ''/a/''
   \<and> findEndpoint item_router \<lparr>url_path = ''/api/v1/item/''\<rparr> = Inr (Node (Some handler200) [] [])
   \<and> findEndpoint item_router \<lparr>url_path = ''/api/v1/item''\<rparr> = Inr (Node (Some handler200) [] [])"
proof -
  have h: "\<not> HasSuffix ''/api/v1/item'' ''/''" by (simp add: HasSuffix_def)
  have e: "findEndpoint item_router \<lparr>url_path = ''/api/v1/item''\<rparr> = Inr (Node (Some handler200) [] [])"
    by (simp add: findEndpoint_def item_router_root string_defs)
  have s: "SplitPath ''/api/v1/item'' = [''api'', ''v1'', ''item'']"
    by (simp add: string_defs)
  have j: "strip_trailing_slash (strip_leading_slash ''//a//'') = ''/a/''"
    by (simp add: strip_trailing_slash_def strip_leading_slash_def)
  from SplitPath_tokenizer [of "''//a//''" "''/api/v1/item''" item_router] h e s j
  show ?thesis by simp
qed

text \<open>
  C8 as stated fails for a registered path that already ends in a slash: the pattern
  \<^verbatim>\<open>/a/\<close> registers and is found, and \<^verbatim>\<open>/a//\<close>, which differs from it by one trailing
  slash, is an unknown path, since only one slash is removed and the empty token that is
  left has no child.
\<close>

theorem trailing_slash_counterexample:
  "fst (HandleFunc (NewDynamicRouter ()) ''/a/'' (Some handler200) []) = None
   \<and> findEndpoint (snd (HandleFunc (NewDynamicRouter ()) ''/a/'' (Some handler200) []))
        \<lparr>url_path = ''/a/''\<rparr> = Inr (Node (Some (handler200 :: unit Handler)) [] [])
   \<and> findEndpoint (snd (HandleFunc (NewDynamicRouter ()) ''/a/'' (Some handler200) []))
        \<lparr>url_path = ''/a/'' @ ''/''\<rparr> = Inl UnknownPath"
  by (simp add: findEndpoint_def HandleFunc_def NewDynamicRouter_def string_defs trie_defs)

section \<open>C1: a registered path is found\<close>

lemma SplitPath_slash_join_slash:
  assumes ne: "ts \<noteq> []" and ok: "\<forall>t \<in> set ts. t \<noteq> [] \<and> CHR ''/'' \<notin> set t"
  shows "SplitPath (CHR ''/'' # join_slash ts) = ts"
proof -
  from ne ok have l: "last ts \<noteq> []" "CHR ''/'' \<notin> set (last ts)"
    by simp_all
  then have "last (last ts) \<noteq> CHR ''/''"
    by (cases "last ts" rule: rev_cases) auto
  with ne l have "strip_trailing_slash (join_slash ts) = join_slash ts"
    using last_join_slash [of ts] by (simp add: strip_trailing_slash_def)
  with ne ok show ?thesis
    by (simp add: SplitPath_strip strip_leading_slash_def Split_join_slash)
qed

lemma registerHandler_installs:
  assumes "registerHandler rt paths (Some h) fs = (None, rt')"
  shows "elide_empty paths \<noteq> []
    \<and> (\<exists>n. node_at rt' (elide_empty paths) = Some n \<and> handler n = Some h \<and> filters n = fs)"
proof -
  from assms have rr: "register_root rt paths h fs = (None, rt')"
    by (simp add: registerHandler_def split: if_splits)
  then have ne: "elide_empty paths \<noteq> []"
    by (auto simp: register_root_as_node split: if_splits)
  obtain e n' where r: "register_at (Node None [] rt) paths h fs = (e, n')"
    by (cases "register_at (Node None [] rt) paths h fs")
  with rr ne have "e = None" "children n' = rt'"
    by (simp_all add: register_root_as_node)
  with register_at_installs [of "Node None [] rt" paths h fs n'] r ne show ?thesis
    by simp
qed

text \<open>
  C1. When \<open>HandleFunc\<close> registers a pattern with a handler and succeeds, the tokens of
  the pattern without the empty ones are not all gone, and looking up the literal path
  made of these tokens joined by slashes, with or without a leading slash, finds the node
  at the end of that key sequence, which carries the handler and the filters just given. The lookup follows exact keys only, so every order
  of the maps gives this node.
\<close>

theorem register_then_lookup:
  assumes "HandleFunc r pattern (Some h) fs = (None, r')"
  shows "elide_empty (SplitPath pattern) \<noteq> []
    \<and> (\<exists>n. findEndpoint r' \<lparr>url_path = join_slash (elide_empty (SplitPath pattern))\<rparr> = Inr n
          \<and> findEndpoint r' \<lparr>url_path = CHR ''/'' # join_slash (elide_empty (SplitPath pattern))\<rparr>
              = Inr n
          \<and> node_at (root r') (elide_empty (SplitPath pattern)) = Some n
          \<and> handler n = Some h \<and> filters n = fs
          \<and> (\<forall>out. parseTree_any (root r') (elide_empty (SplitPath pattern)) out
                \<longrightarrow> out = Inr n))"
proof -
  obtain e rt' where reg: "registerHandler (root r) (SplitPath pattern) (Some h) fs = (e, rt')"
    by (cases "registerHandler (root r) (SplitPath pattern) (Some h) fs")
  with assms have "e = None" and rt': "root r' = rt'"
    by (auto simp: HandleFunc_def)
  with reg registerHandler_installs [of "root r" "SplitPath pattern" h fs rt']
  obtain n where ne: "elide_empty (SplitPath pattern) \<noteq> []"
    and at: "node_at rt' (elide_empty (SplitPath pattern)) = Some n"
    and hn: "handler n = Some h" "filters n = fs"
    by auto
  have sp: "SplitPath (join_slash (elide_empty (SplitPath pattern))) = elide_empty (SplitPath pattern)"
    using ne elide_tokens_ok by (rule SplitPath_join_slash)
  have sp': "SplitPath (CHR ''/'' # join_slash (elide_empty (SplitPath pattern)))
      = elide_empty (SplitPath pattern)"
    using ne elide_tokens_ok by (rule SplitPath_slash_join_slash)
  from at sp have "findEndpoint r' \<lparr>url_path = join_slash (elide_empty (SplitPath pattern))\<rparr> = Inr n"
    by (simp add: findEndpoint_def rt' node_at_parseTree)
  moreover from at sp'
  have "findEndpoint r' \<lparr>url_path = CHR ''/'' # join_slash (elide_empty (SplitPath pattern))\<rparr> = Inr n"
    by (simp add: findEndpoint_def rt' node_at_parseTree)
  moreover have "\<forall>out. parseTree_any (root r') (elide_empty (SplitPath pattern)) out
                \<longrightarrow> out = Inr n"
    using at by (auto simp: rt' dest: node_at_parseTree_any)
  ultimately show ?thesis using ne at hn by (auto simp: rt')
qed

theorem register_then_lookup_witness:
  "HandleFunc (NewDynamicRouter ()) ''/api//v1/:id/'' (Some handler200) [filter401]
     = (None, \<lparr>root = [(''api'', Node None [] [(''v1'', Node None []
                 [('':id'', Node (Some handler200) [filter401] [])])])],
               ctx = (), fileServer = None\<rparr>)
   \<and> join_slash (elide_empty (SplitPath ''/api//v1/:id/'')) = ''api/v1/:id''
   \<and> findEndpoint (snd (HandleFunc (NewDynamicRouter ()) ''/api//v1/:id/'' (Some handler200) [filter401]))
         \<lparr>url_path = ''api/v1/:id''\<rparr> = Inr (Node (Some handler200) [filter401] [])
   \<and> findEndpoint (snd (HandleFunc (NewDynamicRouter ()) ''/api//v1/:id/'' (Some handler200) [filter401]))
         \<lparr>url_path = ''/api/v1/:id''\<rparr> = Inr (Node (Some handler200) [filter401] [])"
proof -
  let ?r' = "\<lparr>root = [(''api'', Node None [] [(''v1'', Node None []
                 [('':id'', Node (Some (handler200 :: unit Handler)) [filter401] [])])])],
               ctx = (), fileServer = None\<rparr>"
  have a: "HandleFunc (NewDynamicRouter ()) ''/api//v1/:id/'' (Some handler200) [filter401]
     = (None, ?r')"
    by (simp add: HandleFunc_def NewDynamicRouter_def string_defs trie_defs)
  have j: "elide_empty (SplitPath ''/api//v1/:id/'') = [''api'', ''v1'', '':id'']"
    by (simp add: elide_empty_def string_defs)
  from register_then_lookup [OF a] a j show ?thesis by auto
qed

section \<open>C7: registrations that are refused\<close>

lemma registerHandler_rejects:
  "registerHandler rt paths None fs = (Some HandlerCannotBeNil, rt)"
  "registerHandler rt [] (Some h) fs = (Some PathCannotBeNil, rt)"
  "paths \<noteq> [] \<Longrightarrow> elide_empty paths = []
     \<Longrightarrow> registerHandler rt paths (Some h) fs = (Some NilPointerDereference, rt)"
  by (simp_all add: registerHandler_def register_root_as_node)

text \<open>
  C7. A nil handler is refused with the panic "handler cannot be nil" and the tree is
  left as it was. The patterns \<^verbatim>\<open>/\<close> and the empty pattern are refused too and leave the
  tree as it was, but not by the check on the path: \<open>SplitPath\<close> gives them the one
  empty token, the length check passes, the loop skips the token, and the handler test
  after the loop dereferences the nil cursor. That failure is not an invalid
  registration in the taxonomy.
\<close>

theorem register_slash_nil_dereference:
  "HandleFunc (NewDynamicRouter ()) ''/'' (Some handler200) []
     = (Some NilPointerDereference, NewDynamicRouter ())
   \<and> HandleFunc (NewDynamicRouter ()) '''' (Some handler200) []
     = (Some NilPointerDereference, NewDynamicRouter ())
   \<and> \<not> InvalidRegistration NilPointerDereference
   \<and> HandleFunc (NewDynamicRouter ()) ''/a'' None []
     = (Some HandlerCannotBeNil, NewDynamicRouter ())
   \<and> InvalidRegistration HandlerCannotBeNil"
  by (simp add: HandleFunc_def NewDynamicRouter_def string_defs trie_defs InvalidRegistration_def)

section \<open>C6: registration is write-once\<close>

lemma registerHandler_twice:
  assumes "registerHandler rt paths (Some h) fs = (None, rt')"
  shows "registerHandler rt' paths (Some h2) fs2 = (Some HandlerAlreadyRegistered, rt')"
proof -
  from assms have rr: "register_root rt paths h fs = (None, rt')" and len: "\<not> length paths < 1"
    by (simp_all add: registerHandler_def split: if_splits)
  then have ne: "elide_empty paths \<noteq> []"
    by (auto simp: register_root_as_node split: if_splits)
  obtain e n' where r: "register_at (Node None [] rt) paths h fs = (e, n')"
    by (cases "register_at (Node None [] rt) paths h fs")
  with rr ne have e: "e = None" and c: "children n' = rt'"
    by (simp_all add: register_root_as_node)
  from register_at_own [OF ne r] have "handler n' = None" "filters n' = []" by simp_all
  with c have n': "n' = Node None [] rt'" by (cases n') simp
  from r e have "register_at n' paths h2 fs2 = (Some HandlerAlreadyRegistered, n')"
    by (simp add: register_at_twice)
  with n' ne len show ?thesis
    by (simp add: registerHandler_def register_root_as_node)
qed

lemma registerHandler_keeps:
  assumes "registerHandler rt paths ho fs = (e, rt')" and "node_at rt ks = Some m"
  shows "\<exists>m'. node_at rt' ks = Some m' \<and> kept m m'"
proof (cases "ho = None \<or> length paths < 1 \<or> elide_empty paths = []")
  case True
  with assms(1) have "rt' = rt"
    by (auto simp: registerHandler_def register_root_as_node split: option.splits if_splits)
  with assms(2) show ?thesis by (auto simp: kept_refl)
next
  case False
  then obtain h where ho: "ho = Some h" by auto
  obtain e' n' where r: "register_at (Node None [] rt) paths h fs = (e', n')"
    by (cases "register_at (Node None [] rt) paths h fs")
  with assms(1) False ho have "children n' = rt'"
    by (auto simp: registerHandler_def register_root_as_node)
  with register_at_keeps [OF r] assms(2) show ?thesis by auto
qed

text \<open>
  C6. After a successful registration of a pattern, registering the same pattern again
  with any handler fails with the panic "a handler is already registered for this path",
  a route conflict, and leaves the router as it was. And whatever a registration does,
  every node that was in the tree is still there under the same keys, and if it carried
  a handler it carries the same handler and filters.
\<close>

theorem registration_write_once:
  "(HandleFunc r pattern (Some h) fs = (None, r1)
      \<longrightarrow> HandleFunc r1 pattern (Some h2) fs2 = (Some HandlerAlreadyRegistered, r1)
          \<and> RouteConflict HandlerAlreadyRegistered)
   \<and> (HandleFunc r pattern ho fs = (e, r2) \<and> node_at (root r) ks = Some m
      \<longrightarrow> (\<exists>m'. node_at (root r2) ks = Some m' \<and> kept m m'))"
proof (intro conjI impI)
  assume a: "HandleFunc r pattern (Some h) fs = (None, r1)"
  obtain e' rt' where reg: "registerHandler (root r) (SplitPath pattern) (Some h) fs = (e', rt')"
    by (cases "registerHandler (root r) (SplitPath pattern) (Some h) fs")
  with a have e': "e' = None" and r1: "r1 = r\<lparr>root := rt'\<rparr>"
    by (auto simp: HandleFunc_def)
  from reg e' have "registerHandler rt' (SplitPath pattern) (Some h2) fs2
      = (Some HandlerAlreadyRegistered, rt')"
    by (simp add: registerHandler_twice)
  then show "HandleFunc r1 pattern (Some h2) fs2 = (Some HandlerAlreadyRegistered, r1)"
    by (simp add: HandleFunc_def r1)
  show "RouteConflict HandlerAlreadyRegistered" by (simp add: RouteConflict_def)
next
  assume b: "HandleFunc r pattern ho fs = (e, r2) \<and> node_at (root r) ks = Some m"
  obtain e' rt' where reg: "registerHandler (root r) (SplitPath pattern) ho fs = (e', rt')"
    by (cases "registerHandler (root r) (SplitPath pattern) ho fs")
  with b have "root r2 = rt'" by (auto simp: HandleFunc_def)
  with registerHandler_keeps [OF reg] b show "\<exists>m'. node_at (root r2) ks = Some m' \<and> kept m m'"
    by simp
qed

lemma item1_router_eq:
  "HandleFunc (NewDynamicRouter ()) ''/api/:id/item1'' (Some handler200) [] = (None, item1_router)"
  "item1_router = \<lparr>root = [(''api'', Node None [] [('':id'', Node None []
       [(''item1'', Node (Some handler200) [] [])])])], ctx = (), fileServer = None\<rparr>"
  by (simp_all add: item1_router_def HandleFunc_def NewDynamicRouter_def string_defs trie_defs)

theorem registration_write_once_witness:
  "HandleFunc (NewDynamicRouter ()) ''/api/:id/item1'' (Some handler200) [] = (None, item1_router)
   \<and> HandleFunc item1_router ''/api/:id/item1'' (Some handler_panics) [filter401]
       = (Some HandlerAlreadyRegistered, item1_router)
   \<and> node_at (root item1_router) [''api'', '':id'', ''item1''] = Some (Node (Some handler200) [] [])
   \<and> (\<exists>m'. node_at (root (snd (HandleFunc item1_router ''/api/:id/item2'' (Some handler_panics) [])))
               [''api'', '':id'', ''item1''] = Some m'
           \<and> kept (Node (Some handler200) [] []) m')"
proof -
  have n: "node_at (root item1_router) [''api'', '':id'', ''item1'']
      = Some (Node (Some handler200) [] [])"
    by (simp add: item1_router_eq(2))
  obtain e r2 where h: "HandleFunc item1_router ''/api/:id/item2'' (Some handler_panics) [] = (e, r2)"
    by (cases "HandleFunc item1_router ''/api/:id/item2'' (Some handler_panics) []")
  from registration_write_once [of "NewDynamicRouter ()" "''/api/:id/item1''" handler200 "[]"
      item1_router handler_panics "[filter401]"]
    item1_router_eq(1)
  have 1: "HandleFunc item1_router ''/api/:id/item1'' (Some handler_panics) [filter401]
       = (Some HandlerAlreadyRegistered, item1_router)"
    by blast
  from registration_write_once [of item1_router "''/api/:id/item2''" _ _ _ _ _
      "Some handler_panics" e r2 "[''api'', '':id'', ''item1'']" "Node (Some handler200) [] []"] h n
  have 2: "\<exists>m'. node_at (root r2) [''api'', '':id'', ''item1''] = Some m'
           \<and> kept (Node (Some handler200) [] []) m'"
    by blast
  from 1 2 n h item1_router_eq(1) show ?thesis by simp
qed

section \<open>C3: one dynamic child per node\<close>

lemma trie_ok_level: "trie_ok cs \<Longrightarrow> level_at cs pre = Some l \<Longrightarrow> trie_ok l"
proof (induction pre arbitrary: cs)
  case Nil
  then show ?case by simp
next
  case (Cons k ks)
  from Cons.prems(2) obtain c where c: "map_of cs k = Some c"
    and l: "level_at (children c) ks = Some l"
    by (auto split: option.splits)
  from c have "(k, c) \<in> set cs" by (rule map_of_SomeD)
  with Cons.prems(1) have "trie_ok (children c)" by (rule trie_ok_child)
  then show ?case using l by (rule Cons.IH)
qed

lemma node_at_level:
  "node_at cs (pre @ [k]) = (case level_at cs pre of None \<Rightarrow> None | Some l \<Rightarrow> map_of l k)"
  by (induction pre arbitrary: cs) (auto split: option.splits)

lemma register_at_level_keys:
  "level_at (children n) pre = Some l \<Longrightarrow> list_all (\<lambda>k. k \<noteq> []) pre \<Longrightarrow> tok \<noteq> []
     \<Longrightarrow> map_of l tok \<noteq> None \<Longrightarrow> register_at n (pre @ tok # rest) h fs = (e, n')
     \<Longrightarrow> \<exists>l'. level_at (children n') pre = Some l' \<and> map fst l' = map fst l"
proof (induction pre arbitrary: n n' e)
  case Nil
  then show ?case
    by (auto simp: keys_store split: if_splits option.splits prod.splits)
next
  case (Cons k ks)
  from Cons.prems(1) obtain c where c: "map_of (children n) k = Some c"
    and l: "level_at (children c) ks = Some l"
    by (auto split: option.splits)
  from Cons.prems(2) have k: "k \<noteq> []" and ks: "list_all (\<lambda>k. k \<noteq> []) ks" by simp_all
  show ?case
  proof (cases "dynamic k \<and> dynamic_clash (children n) k")
    case True
    with Cons.prems(5) k have "n' = n" by simp
    with Cons.prems(1) show ?thesis by simp
  next
    case False
    obtain e' c' where r: "register_at c (ks @ tok # rest) h fs = (e', c')"
      by (cases "register_at c (ks @ tok # rest) h fs")
    with Cons.prems(5) k False c
    have n': "children n' = store k c' (children n)" by auto
    from Cons.IH [OF l ks Cons.prems(3) Cons.prems(4) r]
    obtain l' where "level_at (children c') ks = Some l'" "map fst l' = map fst l" by blast
    then show ?thesis by (simp add: n' map_of_store)
  qed
qed

lemma registerHandler_clash:
  assumes "level_at rt pre = Some l" and "list_all (\<lambda>k. k \<noteq> []) pre" and "dynamic tok"
    and "dynamic_clash l tok"
  shows "registerHandler rt (pre @ tok # rest) (Some h) fs = (Some DynamicAlreadyRegistered, rt)"
proof -
  from assms(3) have "tok \<noteq> []" by (rule dynamic_nonempty)
  then have ne: "elide_empty (pre @ tok # rest) \<noteq> []" by (simp add: elide_empty_def)
  from assms have "register_at (Node None [] rt) (pre @ tok # rest) h fs
      = (Some DynamicAlreadyRegistered, Node None [] rt)"
    by (intro register_at_clash) simp_all
  with ne show ?thesis by (simp add: registerHandler_def register_root_as_node)
qed

lemma registerHandler_level_keys:
  assumes "level_at rt pre = Some l" and "list_all (\<lambda>k. k \<noteq> []) pre" and "tok \<noteq> []"
    and "map_of l tok \<noteq> None"
    and "registerHandler rt (pre @ tok # rest) (Some h) fs = (e, rt')"
  shows "\<exists>l'. level_at rt' pre = Some l' \<and> map fst l' = map fst l"
proof -
  from assms(3) have ne: "elide_empty (pre @ tok # rest) \<noteq> []" by (simp add: elide_empty_def)
  obtain e' n' where r: "register_at (Node None [] rt) (pre @ tok # rest) h fs = (e', n')"
    by (cases "register_at (Node None [] rt) (pre @ tok # rest) h fs")
  with assms(5) ne have c: "children n' = rt'"
    by (simp add: registerHandler_def register_root_as_node)
  from register_at_level_keys [of "Node None [] rt" pre l tok rest h fs e' n'] assms r c
  show ?thesis by simp
qed

lemma registerHandler_ok:
  assumes "trie_ok rt" and "registerHandler rt paths ho fs = (e, rt')"
  shows "trie_ok rt'"
proof (cases "ho = None \<or> length paths < 1 \<or> elide_empty paths = []")
  case True
  with assms(2) have "rt' = rt"
    by (auto simp: registerHandler_def register_root_as_node split: option.splits if_splits)
  with assms(1) show ?thesis by simp
next
  case False
  then obtain h where ho: "ho = Some h" by auto
  obtain e' n' where r: "register_at (Node None [] rt) paths h fs = (e', n')"
    by (cases "register_at (Node None [] rt) paths h fs")
  with assms(2) False ho have c: "children n' = rt'"
    by (auto simp: registerHandler_def register_root_as_node)
  from assms(1) have "node_ok (Node None [] rt)" by (simp only: node_ok_children node.sel)
  then have "node_ok n'" using r by (rule register_at_ok)
  then show ?thesis by (simp only: node_ok_children c)
qed

lemma trie_ok_empty: "trie_ok []"
  by (simp add: trie_ok_def one_dynamic_def)

text \<open>
  C3. A new router has, and every registration (successful or not) keeps, a tree in which
  no children map has two dynamic keys. On such a tree: registering tokens that reach a
  level holding a dynamic key and continue with a different dynamic token fails with the
  panic "a dynamic identifier has already been registered at that level", a route
  conflict, and changes nothing; registering tokens that continue with the dynamic key
  that is already there meets no such conflict at that level, creates no key there and
  keeps the node under that key; and the lookup, whatever entry with a dynamic key its
  loop over a children map meets first, has one result only, the one the model computes
  in list order.
\<close>

theorem one_dynamic_child:
  assumes "trie_ok (root r)"
  shows "trie_ok (root (NewDynamicRouter background))
    \<and> (HandleFunc r pattern ho fs = (e, r') \<longrightarrow> trie_ok (root r'))
    \<and> (level_at (root r) pre = Some l \<longrightarrow> one_dynamic l)
    \<and> (level_at (root r) pre = Some l \<and> list_all (\<lambda>k. k \<noteq> []) pre \<and> dynamic tok
         \<and> dynamic_clash l tok
       \<longrightarrow> registerHandler (root r) (pre @ tok # rest) (Some h) fs
             = (Some DynamicAlreadyRegistered, root r)
           \<and> RouteConflict DynamicAlreadyRegistered)
    \<and> (level_at (root r) pre = Some l \<and> list_all (\<lambda>k. k \<noteq> []) pre \<and> dynamic tok
         \<and> map_of l tok = Some c
         \<and> registerHandler (root r) (pre @ tok # rest) (Some h) fs = (e2, rt2)
       \<longrightarrow> \<not> dynamic_clash l tok
           \<and> (\<exists>l' c'. level_at rt2 pre = Some l' \<and> map fst l' = map fst l
                 \<and> map_of l' tok = Some c' \<and> kept c c'))
    \<and> parseTree_any (root r) toks (parseTree (root r) toks)
    \<and> (parseTree_any (root r) toks out \<longrightarrow> out = parseTree (root r) toks)"
proof (intro conjI impI)
  show "trie_ok (root (NewDynamicRouter background))"
    by (simp add: NewDynamicRouter_def trie_ok_empty)
next
  assume a: "HandleFunc r pattern ho fs = (e, r')"
  obtain e' rt' where reg: "registerHandler (root r) (SplitPath pattern) ho fs = (e', rt')"
    by (cases "registerHandler (root r) (SplitPath pattern) ho fs")
  with a have "root r' = rt'" by (auto simp: HandleFunc_def)
  with registerHandler_ok [OF assms reg] show "trie_ok (root r')" by simp
next
  assume "level_at (root r) pre = Some l"
  with assms have "trie_ok l" by (rule trie_ok_level)
  then show "one_dynamic l" unfolding trie_ok_def by blast
next
  assume "level_at (root r) pre = Some l \<and> list_all (\<lambda>k. k \<noteq> []) pre \<and> dynamic tok
         \<and> dynamic_clash l tok"
  then show "registerHandler (root r) (pre @ tok # rest) (Some h) fs
             = (Some DynamicAlreadyRegistered, root r)"
    by (auto intro: registerHandler_clash)
next
  show "RouteConflict DynamicAlreadyRegistered" by (simp add: RouteConflict_def)
next
  assume b: "level_at (root r) pre = Some l \<and> list_all (\<lambda>k. k \<noteq> []) pre \<and> dynamic tok
         \<and> map_of l tok = Some c
         \<and> registerHandler (root r) (pre @ tok # rest) (Some h) fs = (e2, rt2)"
  with assms have "trie_ok l" by (auto intro: trie_ok_level)
  then have "one_dynamic l" unfolding trie_ok_def by blast
  with b show "\<not> dynamic_clash l tok" using no_clash_same [of l tok c] by blast
next
  assume b: "level_at (root r) pre = Some l \<and> list_all (\<lambda>k. k \<noteq> []) pre \<and> dynamic tok
         \<and> map_of l tok = Some c
         \<and> registerHandler (root r) (pre @ tok # rest) (Some h) fs = (e2, rt2)"
  then have tok: "tok \<noteq> []" by (auto dest: dynamic_nonempty)
  from b tok registerHandler_level_keys [of "root r" pre l tok rest h fs e2 rt2]
  obtain l' where l': "level_at rt2 pre = Some l'" "map fst l' = map fst l" by auto
  from b have "node_at (root r) (pre @ [tok]) = Some c" by (simp add: node_at_level)
  with b registerHandler_keeps [of "root r" "pre @ tok # rest" "Some h" fs e2 rt2 "pre @ [tok]" c]
  obtain c' where "node_at rt2 (pre @ [tok]) = Some c'" "kept c c'" by auto
  with l' show "\<exists>l' c'. level_at rt2 pre = Some l' \<and> map fst l' = map fst l
                 \<and> map_of l' tok = Some c' \<and> kept c c'"
    by (auto simp: node_at_level)
next
  show "parseTree_any (root r) toks (parseTree (root r) toks)" by (rule parseTree_any_parseTree)
next
  assume "parseTree_any (root r) toks out"
  then show "out = parseTree (root r) toks" using assms by (rule parseTree_any_unique)
qed

lemma item1_router_ok: "trie_ok (root item1_router)"
  by (simp add: item1_router_eq(2) trie_ok_def one_dynamic_def dynamic_def HasPrefix_def)

theorem one_dynamic_child_witness:
  "trie_ok (root item1_router)
   \<and> trie_ok (root (snd (HandleFunc item1_router ''/api/:id/item2'' (Some handler200) [])))
   \<and> fst (HandleFunc item1_router ''/api/:id/item2'' (Some handler200) []) = None
   \<and> level_at (root item1_router) [''api'']
        = Some [('':id'', Node None [] [(''item1'', Node (Some handler200) [] [])])]
   \<and> registerHandler (root item1_router) [''api'', '':id2'', ''item'']
        (Some handler200) [] = (Some DynamicAlreadyRegistered, root item1_router)
   \<and> registerHandler (root item1_router) [''api'', '':id'', ''item2''] (Some handler200) []
        = (None, [(''api'', Node None [] [('':id'', Node None []
            [(''item1'', Node (Some handler200) [] []), (''item2'', Node (Some handler200) [] [])])])])
   \<and> \<not> dynamic_clash [('':id'', Node None [] [(''item1'', Node (Some (handler200 :: unit Handler))
          ([] :: HttpFilter list) [])])] '':id''
   \<and> (\<exists>l' c'. level_at [(''api'', Node None [] [('':id'', Node None []
            [(''item1'', Node (Some (handler200 :: unit Handler)) ([] :: HttpFilter list) []),
             (''item2'', Node (Some handler200) [] [])])])] [''api''] = Some l'
         \<and> map fst l' = ['':id''] \<and> map_of l' '':id'' = Some c'
         \<and> kept (Node None [] [(''item1'', Node (Some handler200) [] [])]) c')
   \<and> parseTree_any (root item1_router) [''api'', ''12345'', ''item1'']
        (Inr (Node (Some handler200) [] []))
   \<and> Inr (Node (Some handler200) [] []) = parseTree (root item1_router) [''api'', ''12345'', ''item1'']"
proof -
  let ?c = "Node None [] [(''item1'', Node (Some (handler200 :: unit Handler))
      ([] :: HttpFilter list) [])]"
  let ?l = "[('':id'', ?c)]"
  let ?rt2 = "[(''api'', Node None [] [('':id'', Node None []
            [(''item1'', Node (Some (handler200 :: unit Handler)) ([] :: HttpFilter list) []),
             (''item2'', Node (Some handler200) [] [])])])]"
  have lv: "level_at (root item1_router) [''api''] = Some ?l"
    by (simp add: item1_router_eq(2))
  have cl: "list_all (\<lambda>k. k \<noteq> []) [''api''] \<and> dynamic '':id2'' \<and> dynamic_clash ?l '':id2''"
    by (simp add: dynamic_def dynamic_clash_def HasPrefix_def)
  obtain e r' where h: "HandleFunc item1_router ''/api/:id/item2'' (Some handler200) [] = (e, r')"
    by (cases "HandleFunc item1_router ''/api/:id/item2'' (Some handler200) []")
  have e: "fst (HandleFunc item1_router ''/api/:id/item2'' (Some handler200) []) = None"
    by (simp add: HandleFunc_def item1_router_eq(2) string_defs trie_defs)
  have p: "parseTree (root item1_router) [''api'', ''12345'', ''item1'']
      = Inr (Node (Some handler200) [] [])"
    by (simp add: item1_router_eq(2) dynamic_def HasPrefix_def)
  have reg: "registerHandler (root item1_router) ([''api''] @ '':id'' # [''item2'']) (Some handler200) []
      = (None, ?rt2)"
    by (simp add: item1_router_eq(2) trie_defs HasPrefix_def)
  have same: "list_all (\<lambda>k. k \<noteq> []) [''api''] \<and> dynamic '':id'' \<and> map_of ?l '':id'' = Some ?c"
    by (simp add: dynamic_def HasPrefix_def)
  note T = one_dynamic_child [OF item1_router_ok, of "()" "''/api/:id/item2''" "Some handler200" "[]" e r'
      "[''api'']" ?l "'':id2''" "[''item'']" handler200 "Node None [] []" None "[]"
      "[''api'', ''12345'', ''item1'']" "Inr (Node (Some handler200) [] [])"]
  note U = one_dynamic_child [OF item1_router_ok, of "()" "''/api/:id/item2''" "Some handler200" "[]" e r'
      "[''api'']" ?l "'':id''" "[''item2'']" handler200 ?c None ?rt2
      "[''api'', ''12345'', ''item1'']" "Inr (Node (Some handler200) [] [])"]
  from T h have 1: "trie_ok (root r')" by blast
  from lv cl
  have ante_b: "level_at (root item1_router) [''api''] = Some ?l
      \<and> list_all (\<lambda>k. k \<noteq> []) [''api''] \<and> dynamic '':id2'' \<and> dynamic_clash ?l '':id2''"
    by (intro conjI) (elim conjE, assumption)+
  have "registerHandler (root item1_router) ([''api''] @ '':id2'' # [''item''])
        (Some handler200) [] = (Some DynamicAlreadyRegistered, root item1_router)"
    by (rule T [THEN conjunct2, THEN conjunct2, THEN conjunct2, THEN conjunct1, THEN mp,
          OF ante_b, THEN conjunct1])
  then have 2: "registerHandler (root item1_router) [''api'', '':id2'', ''item'']
        (Some handler200) [] = (Some DynamicAlreadyRegistered, root item1_router)"
    by simp
  from T have "parseTree_any (root item1_router) [''api'', ''12345'', ''item1'']
      (parseTree (root item1_router) [''api'', ''12345'', ''item1''])"
    by blast
  then have 3: "parseTree_any (root item1_router) [''api'', ''12345'', ''item1'']
        (Inr (Node (Some handler200) [] []))"
    by (simp only: p)
  from T 3 have 5: "Inr (Node (Some handler200) [] [])
      = parseTree (root item1_router) [''api'', ''12345'', ''item1'']"
    by blast
  from h 1 have 4: "trie_ok (root (snd (HandleFunc item1_router ''/api/:id/item2'' (Some handler200) [])))"
    by simp
  from lv same reg
  have ante: "level_at (root item1_router) [''api''] = Some ?l
      \<and> list_all (\<lambda>k. k \<noteq> []) [''api''] \<and> dynamic '':id'' \<and> map_of ?l '':id'' = Some ?c
      \<and> registerHandler (root item1_router) ([''api''] @ '':id'' # [''item2'']) (Some handler200) []
          = (None, ?rt2)"
    by (intro conjI) (elim conjE, assumption)+
  have 6: "\<not> dynamic_clash ?l '':id''
      \<and> (\<exists>l' c'. level_at ?rt2 [''api''] = Some l' \<and> map fst l' = map fst ?l
            \<and> map_of l' '':id'' = Some c' \<and> kept ?c c')"
    by (rule U [THEN conjunct2, THEN conjunct2, THEN conjunct2, THEN conjunct2, THEN conjunct1,
          THEN mp, OF ante])
  then have 7: "\<not> dynamic_clash ?l '':id''
      \<and> (\<exists>l' c'. level_at ?rt2 [''api''] = Some l' \<and> map fst l' = ['':id'']
            \<and> map_of l' '':id'' = Some c' \<and> kept ?c c')"
    by simp
  from reg have reg': "registerHandler (root item1_router) [''api'', '':id'', ''item2'']
      (Some handler200) [] = (None, ?rt2)"
    by simp
  from item1_router_ok 4 e lv 2 3 5 7 reg' show ?thesis by blast
qed

section \<open>C4: the filter chain\<close>

text \<open>
  C4. Let the lookup find a node with a handler. If the filters before some filter all
  return true and that filter returns false, then \<open>ServeHTTP\<close> has entered exactly these
  filters, in the order of registration, and neither a later filter nor the handler; the
  wrapper has taken their calls in that order and was flushed once, so the sink has
  received one status and one body, those the wrapper held after the last of these
  calls. If every filter returns true and the handler returns, then \<open>ServeHTTP\<close> has
  entered all filters in order and then the handler, with the context of the router and
  the request, and the wrapper was flushed once after the calls of the handler.
\<close>

theorem filters_then_handler:
  assumes "findEndpoint r req = Inr n" and "handler n = Some h"
  shows "(filters n = pre @ f # post \<and> list_all (pass req) pre \<and> f req = (cs, Returns False)
      \<longrightarrow> ServeHTTP r res req =
            (\<lparr>wrapper = flush (run_calls (filters_calls pre req @ cs) (wrap res)),
              ran = map RanFilter [0..<Suc (length pre)]\<rparr>, Returns ())
          \<and> observed (ServeHTTP r res req) =
              received res @
              [CallWriteHeader (status (run_calls (filters_calls pre req @ cs) (wrap res))),
               CallWrite (body (run_calls (filters_calls pre req @ cs) (wrap res)))])
    \<and> (list_all (pass req) (filters n) \<and> h (ctx r) req = (hc, Returns ())
      \<longrightarrow> ServeHTTP r res req =
            (\<lparr>wrapper = flush (run_calls (filters_calls (filters n) req @ hc) (wrap res)),
              ran = map RanFilter [0..<length (filters n)] @ [RanHandler (ctx r) req]\<rparr>,
             Returns ())
          \<and> observed (ServeHTTP r res req) =
              received res @
              [CallWriteHeader (status (run_calls (filters_calls (filters n) req @ hc) (wrap res))),
               CallWrite (body (run_calls (filters_calls (filters n) req @ hc) (wrap res)))])"
proof (intro conjI impI)
  assume a: "filters n = pre @ f # post \<and> list_all (pass req) pre \<and> f req = (cs, Returns False)"
  with assms show s: "ServeHTTP r res req =
            (\<lparr>wrapper = flush (run_calls (filters_calls pre req @ cs) (wrap res)),
              ran = map RanFilter [0..<Suc (length pre)]\<rparr>, Returns ())"
    using ServeHTTP_filter_stops [of r req n h pre f post cs res] by blast
  show "observed (ServeHTTP r res req) =
              received res @
              [CallWriteHeader (status (run_calls (filters_calls pre req @ cs) (wrap res))),
               CallWrite (body (run_calls (filters_calls pre req @ cs) (wrap res)))]"
    by (simp only: s observed_flush)
next
  assume a: "list_all (pass req) (filters n) \<and> h (ctx r) req = (hc, Returns ())"
  with assms show s: "ServeHTTP r res req =
            (\<lparr>wrapper = flush (run_calls (filters_calls (filters n) req @ hc) (wrap res)),
              ran = map RanFilter [0..<length (filters n)] @ [RanHandler (ctx r) req]\<rparr>,
             Returns ())"
    using ServeHTTP_handler_returns [of r req n h hc res] by blast
  show "observed (ServeHTTP r res req) =
              received res @
              [CallWriteHeader (status (run_calls (filters_calls (filters n) req @ hc) (wrap res))),
               CallWrite (body (run_calls (filters_calls (filters n) req @ hc) (wrap res)))]"
    by (simp only: s observed_flush)
qed

theorem filters_then_handler_witness:
  "ServeHTTP (tests_router handler200 [filter_true, filter401, filter_panics]) recorder tests_request
     = (\<lparr>wrapper = \<lparr>ResponseWriter = \<lparr>received = [CallWriteHeader 401, CallWrite []],
                                       hijackable = False\<rparr>,
                     Hijacker = False, status = 401, body = []\<rparr>,
         ran = [RanFilter 0, RanFilter 1]\<rparr>, Returns ())
   \<and> ServeHTTP (tests_router handler200 [filter_true]) recorder tests_request
     = (\<lparr>wrapper = \<lparr>ResponseWriter = \<lparr>received = [CallWriteHeader 200, CallWrite ''response''],
                                       hijackable = False\<rparr>,
                     Hijacker = False, status = 200, body = ''response''\<rparr>,
         ran = [RanFilter 0, RanHandler () tests_request]\<rparr>, Returns ())"
proof -
  have p: "list_all (pass tests_request) [filter_true]"
    by (simp add: pass_def filter_true_def)
  have f: "filter401 tests_request = ([CallWriteHeader 401], Returns False)"
    by (simp add: filter401_def)
  have h: "handler200 (ctx (tests_router handler200 [filter_true])) tests_request
      = ([CallWriteHeader 200, CallWrite ''response''], Returns ())"
    by (simp add: handler200_def)
  from filters_then_handler [OF tests_router_find [of handler200
      "[filter_true, filter401, filter_panics]"], where h = handler200 and pre = "[filter_true]"
      and f = filter401 and post = "[filter_panics]" and cs = "[CallWriteHeader 401]"
      and res = recorder and hc = "[]"] p f
  have 1: "ServeHTTP (tests_router handler200 [filter_true, filter401, filter_panics]) recorder
      tests_request
     = (\<lparr>wrapper = flush (run_calls (filters_calls [filter_true] tests_request @ [CallWriteHeader 401])
          (wrap recorder)), ran = map RanFilter [0..<Suc (length [filter_true])]\<rparr>, Returns ())"
    by simp
  from filters_then_handler [OF tests_router_find [of handler200 "[filter_true]"],
      where h = handler200 and pre = "[]" and f = filter_true and post = "[]" and cs = "[]"
      and res = recorder and hc = "[CallWriteHeader 200, CallWrite ''response'']"] p h
  have 2: "ServeHTTP (tests_router handler200 [filter_true]) recorder tests_request
     = (\<lparr>wrapper = flush (run_calls (filters_calls [filter_true] tests_request
            @ [CallWriteHeader 200, CallWrite ''response'']) (wrap recorder)),
         ran = map RanFilter [0..<length [filter_true]] @ [RanHandler () tests_request]\<rparr>, Returns ())"
    by (simp add: tests_router_eq)
  show ?thesis
    unfolding 1 2 by (simp add: wrapper_defs filter_true_def upt_rec)
qed

section \<open>C2: a panic gives 500\<close>



section \<open>C5: when the lookup fails\<close>

text \<open>
  C5. Let the lookup fail; it then fails with the unknown-path error. Without a file
  server, \<open>ServeHTTP\<close> enters no application code and the sink receives the status 404
  and the empty body. With a file server, \<open>ServeHTTP\<close> enters the file server and nothing
  else; the calls of the file server reach the sink as they are made, not through the
  wrapper, and when the file server returns the sink has received nothing else. When the
  file server panics, the deferred function adds the status 500 and the empty body of
  the unused wrapper.
\<close>

theorem lookup_failure:
  assumes "findEndpoint r req = Inl err"
  shows "NotFound err
    \<and> (fileServer r = None
      \<longrightarrow> ServeHTTP r res req =
            (\<lparr>wrapper = flush (WriteHeader 404 (wrap res)), ran = []\<rparr>, Returns ())
          \<and> observed (ServeHTTP r res req) = received res @ [CallWriteHeader 404, CallWrite []])
    \<and> (fileServer r = Some fsrv \<and> fsrv req = (cs, Returns ())
      \<longrightarrow> ServeHTTP r res req =
            (\<lparr>wrapper = (wrap res)\<lparr>ResponseWriter := fold sink_call cs res\<rparr>,
              ran = [RanFileServer req]\<rparr>, Returns ())
          \<and> observed (ServeHTTP r res req) = received res @ cs)
    \<and> (fileServer r = Some fsrv \<and> fsrv req = (cs, Panics)
      \<longrightarrow> ran (fst (ServeHTTP r res req)) = [RanFileServer req]
          \<and> observed (ServeHTTP r res req)
              = received res @ cs @ [CallWriteHeader 500, CallWrite []])"
proof (intro conjI impI)
  from assms show "NotFound err" by (simp add: NotFound_def findEndpoint_failure)
next
  assume "fileServer r = None"
  with assms show s: "ServeHTTP r res req =
            (\<lparr>wrapper = flush (WriteHeader 404 (wrap res)), ran = []\<rparr>, Returns ())"
    by (rule ServeHTTP_not_found)
  show "observed (ServeHTTP r res req) = received res @ [CallWriteHeader 404, CallWrite []]"
    by (simp add: s observed_def received_flush WriteHeader_def wrap_sel)
next
  assume a: "fileServer r = Some fsrv \<and> fsrv req = (cs, Returns ())"
  with assms show s: "ServeHTTP r res req =
            (\<lparr>wrapper = (wrap res)\<lparr>ResponseWriter := fold sink_call cs res\<rparr>,
              ran = [RanFileServer req]\<rparr>, Returns ())"
    using ServeHTTP_fallback_returns [of r req err fsrv cs res] by blast
  show "observed (ServeHTTP r res req) = received res @ cs"
    by (simp add: s observed_def received_fold_sink_call)
next
  assume a: "fileServer r = Some fsrv \<and> fsrv req = (cs, Panics)"
  with assms have s: "ServeHTTP r res req =
    (\<lparr>wrapper = flush (WriteHeader 500 ((wrap res)\<lparr>ResponseWriter := fold sink_call cs res\<rparr>)),
      ran = [RanFileServer req]\<rparr>, Returns ())"
    using ServeHTTP_fallback_panics [of r req err fsrv cs res] by blast
  show "ran (fst (ServeHTTP r res req)) = [RanFileServer req]" by (simp add: s)
  show "observed (ServeHTTP r res req) = received res @ cs @ [CallWriteHeader 500, CallWrite []]"
    by (simp add: s observed_def received_flush received_fold_sink_call WriteHeader_def wrap_sel)
qed

theorem lookup_failure_witness:
  "findEndpoint (tests_router handler200 [filter401]) \<lparr>url_path = ''/other''\<rparr> = Inl UnknownPath
   \<and> ServeHTTP (tests_router handler200 [filter401]) recorder \<lparr>url_path = ''/other''\<rparr>
     = (\<lparr>wrapper = \<lparr>ResponseWriter = \<lparr>received = [CallWriteHeader 404, CallWrite []],
                                       hijackable = False\<rparr>,
                     Hijacker = False, status = 404, body = []\<rparr>,
         ran = []\<rparr>, Returns ())
   \<and> ServeHTTP (ServeStaticAt (tests_router handler200 [filter401]) static_files) recorder
        \<lparr>url_path = ''/other''\<rparr>
     = (\<lparr>wrapper = \<lparr>ResponseWriter = \<lparr>received = [CallWriteHeader 200, CallWrite ''index''],
                                       hijackable = False\<rparr>,
                     Hijacker = False, status = 200, body = []\<rparr>,
         ran = [RanFileServer \<lparr>url_path = ''/other''\<rparr>]\<rparr>, Returns ())
   \<and> observed (ServeHTTP (ServeStaticAt (tests_router handler200 [filter401]) static_panics) recorder
        \<lparr>url_path = ''/other''\<rparr>)
     = [CallWriteHeader 200, CallWriteHeader 500, CallWrite []]"
proof -
  note m = tests_router_miss [of handler200 "[filter401]"]
  have n: "fileServer (tests_router handler200 [filter401]) = None"
    by (simp add: tests_router_eq)
  have s: "fileServer (ServeStaticAt (tests_router handler200 [filter401]) static_files)
      = Some static_files
    \<and> static_files \<lparr>url_path = ''/other''\<rparr> = ([CallWriteHeader 200, CallWrite ''index''], Returns ())"
    by (simp add: ServeStaticAt_def static_files_def)
  have t: "fileServer (ServeStaticAt (tests_router handler200 [filter401]) static_panics)
      = Some static_panics
    \<and> static_panics \<lparr>url_path = ''/other''\<rparr> = ([CallWriteHeader 200], Panics)"
    by (simp add: ServeStaticAt_def static_panics_def)
  from lookup_failure [OF m(1), where res = recorder and fsrv = static_files and cs = "[]"] n
  have 1: "ServeHTTP (tests_router handler200 [filter401]) recorder \<lparr>url_path = ''/other''\<rparr>
     = (\<lparr>wrapper = flush (WriteHeader 404 (wrap recorder)), ran = []\<rparr>, Returns ())"
    by blast
  from lookup_failure [OF m(2) [of static_files], where res = recorder and fsrv = static_files
      and cs = "[CallWriteHeader 200, CallWrite ''index'']"] s
  have 2: "ServeHTTP (ServeStaticAt (tests_router handler200 [filter401]) static_files) recorder
        \<lparr>url_path = ''/other''\<rparr>
     = (\<lparr>wrapper = (wrap recorder)\<lparr>ResponseWriter :=
            fold sink_call [CallWriteHeader 200, CallWrite ''index''] recorder\<rparr>,
         ran = [RanFileServer \<lparr>url_path = ''/other''\<rparr>]\<rparr>, Returns ())"
    by blast
  from lookup_failure [OF m(2) [of static_panics], where res = recorder and fsrv = static_panics
      and cs = "[CallWriteHeader 200]"] t
  have 3: "observed (ServeHTTP (ServeStaticAt (tests_router handler200 [filter401]) static_panics)
        recorder \<lparr>url_path = ''/other''\<rparr>)
     = received recorder @ [CallWriteHeader 200] @ [CallWriteHeader 500, CallWrite []]"
    by blast
  show ?thesis
    unfolding 1 2 3 by (simp add: m wrapper_defs)
qed

section \<open>C10: the last write is the body\<close>



section \<open>C9: the hijacker of the wrapper\<close>

text \<open>
  C9. For a sink that is not a hijacker, such as a response recorder, \<open>ServeHTTP\<close>
  leaves the field \<open>Hijacker\<close> of the wrapper nil; the wrapper still passes the type
  assertion to \<^verbatim>\<open>http.Hijacker\<close>, because the embedded field puts \<open>Hijack\<close> into its
  method set, and a call of \<open>Hijack\<close> panics. For a sink that is a hijacker the wrapper
  passes the assertion and the call goes to the sink.
\<close>

theorem wrapper_always_advertises_hijack:
  "hijackable recorder = False
   \<and> Hijacker (wrap recorder) = False
   \<and> is_Hijacker (wrap recorder)
   \<and> Hijack (wrap recorder) = Panics
   \<and> is_Hijacker (wrap server_writer)
   \<and> Hijack (wrap server_writer) = Returns ()"
  by (simp add: recorder_def server_writer_def wrap_def is_Hijacker_def asserts_to_def
      methods_responseWrapper_def methods_Hijacker_def methods_ResponseWriter_def Hijack_def)

end
